theory Spec2Isabelle
  imports Complex_Main "HOL-Library.AList" "HOL-Library.Multiset"
begin

section \<open>Values and errors\<close>

text \<open>
  The exceptions the modelled code can raise: \<^verbatim>\<open>KeyError\<close> from a dictionary lookup or
  \<^verbatim>\<open>del\<close> on a missing key, \<^verbatim>\<open>ZeroDivisionError\<close> from a division by zero,
  \<^verbatim>\<open>OverflowError\<close> from a float power or a conversion of an int that is too large for a
  float, \<^verbatim>\<open>ValueError\<close> from \<^verbatim>\<open>math.sqrt\<close> of a negative number. \<open>NonFinite\<close> is no
  exception: it marks a float operation whose result is an infinity or a NaN, which the
  numbers of this model do not include; the model follows a run no further than that.
\<close>

datatype error = KeyError | ZeroDivisionError | OverflowError | ValueError | NonFinite

text \<open>
  A Python number is an \<^verbatim>\<open>int\<close> or a finite \<^verbatim>\<open>float\<close>; a float is taken by its value, so the
  two zeros are one. \<^verbatim>\<open>int(x)\<close> is the identity on an int and truncates a float toward
  zero. Comparisons of numbers, also of an int with a float, compare the values.
\<close>

datatype pynum = PInt int | PFloat real

fun py_int :: "pynum \<Rightarrow> int" where
  "py_int (PInt i) = i"
| "py_int (PFloat r) = (if 0 \<le> r then \<lfloor>r\<rfloor> else \<lceil>r\<rceil>)"

fun py_real :: "pynum \<Rightarrow> real" where
  "py_real (PInt i) = real_of_int i"
| "py_real (PFloat r) = r"

fun is_int :: "pynum \<Rightarrow> bool" where
  "is_int (PInt i) = True"
| "is_int (PFloat r) = False"

section \<open>The data model of bot.py\<close>

text \<open>
  Dictionaries are association lists in insertion order, as Python keeps them:
  \<^verbatim>\<open>d[k] = v\<close> is \<^const>\<open>AList.update\<close> (in place when the key is there, appended
  otherwise), \<^verbatim>\<open>del d[k]\<close> is \<^const>\<open>AList.delete\<close> after the check that the key is there,
  \<^verbatim>\<open>k in d\<close> is membership in the keys, \<^verbatim>\<open>d[k]\<close> is \<^const>\<open>map_of\<close>.
\<close>

record Enemy =
  e_id :: int
  e_name :: string
  e_x :: pynum
  e_y :: pynum
  e_angle :: real

record Buff =
  b_id :: int
  b_deadline :: real

record Player =
  p_id :: int
  p_name :: string
  p_x :: pynum
  p_y :: pynum
  p_angle :: real
  p_moving :: bool
  p_buffs :: "(int \<times> Buff) list"

record Ability =
  a_id :: int
  a_name :: string
  cast_deadline :: real
  gc_deadline :: real

record SimState =
  players :: "(int \<times> Player) list"
  enemies :: "(int \<times> Enemy) list"
  abilities :: "(int \<times> Ability) list"
  pause_time :: "real option"
  server_offset :: real
  pause_offset :: real

definition has_key :: "'k \<Rightarrow> ('k \<times> 'v) list \<Rightarrow> bool" where
  "has_key k d = (k \<in> set (map fst d))"

subsection \<open>Player\<close>

definition new_player :: "int \<Rightarrow> string \<Rightarrow> Player" where
  "new_player pid nm =
     \<lparr>p_id = pid, p_name = nm, p_x = PInt 0, p_y = PInt 0, p_angle = 0,
      p_moving = False, p_buffs = []\<rparr>"

definition player_reset :: "Player \<Rightarrow> Player" where
  "player_reset p = p\<lparr>p_x := PInt 0, p_y := PInt 0, p_angle := 0, p_moving := False, p_buffs := []\<rparr>"

definition add_buff :: "int \<Rightarrow> real \<Rightarrow> Player \<Rightarrow> Player" where
  "add_buff i dl p = p\<lparr>p_buffs := AList.update i \<lparr>b_id = i, b_deadline = dl\<rparr> (p_buffs p)\<rparr>"

definition remove_buff :: "int \<Rightarrow> Player \<Rightarrow> error + Player" where
  "remove_buff i p =
     (if has_key i (p_buffs p) then Inr (p\<lparr>p_buffs := AList.delete i (p_buffs p)\<rparr>)
      else Inl KeyError)"

definition has_buff :: "int \<Rightarrow> Player \<Rightarrow> bool" where
  "has_buff i p = has_key i (p_buffs p)"

subsection \<open>SimState\<close>

text \<open>
  \<^verbatim>\<open>time.time()\<close> is the wall clock, an input of the model: every operation that reads
  the clock takes the wall-clock reading \<open>now\<close> of its call.
\<close>

definition init_state :: SimState where
  "init_state =
     \<lparr>players = [], enemies = [], abilities = [], pause_time = None,
      server_offset = 0, pause_offset = 0\<rparr>"

definition reset :: "SimState \<Rightarrow> SimState" where
  "reset s = s\<lparr>enemies := [], players := map (\<lambda>(k, p). (k, player_reset p)) (players s)\<rparr>"

definition time :: "real \<Rightarrow> SimState \<Rightarrow> real" where
  "time now s =
     (case pause_time s of
        Some t \<Rightarrow> t
      | None \<Rightarrow> now - pause_offset s - server_offset s)"

definition pause :: "real \<Rightarrow> SimState \<Rightarrow> SimState" where
  "pause now s = s\<lparr>pause_time := Some (time now s)\<rparr>"

definition unpause :: "real \<Rightarrow> SimState \<Rightarrow> SimState" where
  "unpause offset s = s\<lparr>pause_time := None, pause_offset := offset\<rparr>"

definition add_player :: "int \<Rightarrow> string \<Rightarrow> SimState \<Rightarrow> SimState" where
  "add_player pid nm s = s\<lparr>players := AList.update pid (new_player pid nm) (players s)\<rparr>"

definition update_player :: "int \<Rightarrow> pynum \<Rightarrow> pynum \<Rightarrow> real \<Rightarrow> bool \<Rightarrow> SimState \<Rightarrow> SimState" where
  "update_player pid x y angle moving s =
     (case map_of (players s) pid of
        None \<Rightarrow> s
      | Some p \<Rightarrow>
          s\<lparr>players :=
              AList.update pid
                (p\<lparr>p_x := PInt (py_int x), p_y := PInt (py_int y), p_angle := angle,
                   p_moving := moving\<rparr>)
                (players s)\<rparr>)"

definition remove_player :: "int \<Rightarrow> SimState \<Rightarrow> SimState" where
  "remove_player pid s =
     (if \<not> has_key pid (players s) then s
      else s\<lparr>players := AList.delete pid (players s)\<rparr>)"

definition add_enemy :: "int \<Rightarrow> string \<Rightarrow> pynum \<Rightarrow> pynum \<Rightarrow> real \<Rightarrow> SimState \<Rightarrow> SimState" where
  "add_enemy eid nm x y angle s =
     s\<lparr>enemies :=
         AList.update eid \<lparr>e_id = eid, e_name = nm, e_x = x, e_y = y, e_angle = angle\<rparr>
           (enemies s)\<rparr>"

definition remove_enemy :: "int \<Rightarrow> SimState \<Rightarrow> SimState" where
  "remove_enemy eid s =
     (if \<not> has_key eid (enemies s) then s
      else s\<lparr>enemies := AList.delete eid (enemies s)\<rparr>)"

definition add_ability :: "real \<Rightarrow> int \<Rightarrow> string \<Rightarrow> real \<Rightarrow> SimState \<Rightarrow> SimState" where
  "add_ability now aid nm duration s =
     s\<lparr>abilities :=
         AList.update aid
           \<lparr>a_id = aid, a_name = nm, cast_deadline = time now s + duration,
            gc_deadline = time now s + duration + 1\<rparr>
           (abilities s)\<rparr>"

text \<open>
  \<^verbatim>\<open>gc_abilities\<close> first collects the set of the \<^verbatim>\<open>id\<close> fields of the expired abilities,
  then deletes each of these ids from the dictionary; a \<^verbatim>\<open>del\<close> of an id that is not a
  key raises.
\<close>

definition to_remove :: "real \<Rightarrow> SimState \<Rightarrow> int list" where
  "to_remove now s =
     remdups (map a_id (filter (\<lambda>abi. time now s > gc_deadline abi) (map snd (abilities s))))"

fun del_all :: "int list \<Rightarrow> (int \<times> 'v) list \<Rightarrow> error + (int \<times> 'v) list" where
  "del_all [] d = Inr d"
| "del_all (k # ks) d = (if has_key k d then del_all ks (AList.delete k d) else Inl KeyError)"

definition gc_abilities :: "real \<Rightarrow> SimState \<Rightarrow> error + SimState" where
  "gc_abilities now s =
     (case del_all (to_remove now s) (abilities s) of
        Inl e \<Rightarrow> Inl e
      | Inr d \<Rightarrow> Inr (s\<lparr>abilities := d\<rparr>))"

section \<open>Registry operations in sequence\<close>

text \<open>
  The calls that the event loop and the strategies make on the registry, each tagged
  with the wall-clock reading at which it runs. \<open>AddBuff\<close>, \<open>RemoveBuff\<close> and \<open>Face\<close>
  go through \<^verbatim>\<open>self.state.players[pid]\<close>, which raises on an unknown player.
\<close>

datatype op =
    AddPlayer int string
  | UpdatePlayer int pynum pynum real bool
  | RemovePlayer int
  | AddEnemy int string pynum pynum real
  | RemoveEnemy int
  | AddAbility int string real
  | GcAbilities
  | Reset
  | Pause
  | Unpause real
  | AddBuff int int real
  | RemoveBuff int int
  | Face int real

definition set_player :: "int \<Rightarrow> Player \<Rightarrow> SimState \<Rightarrow> SimState" where
  "set_player pid p s = s\<lparr>players := AList.update pid p (players s)\<rparr>"

fun apply_op :: "real \<Rightarrow> op \<Rightarrow> SimState \<Rightarrow> error + SimState" where
  "apply_op now (AddPlayer pid nm) s = Inr (add_player pid nm s)"
| "apply_op now (UpdatePlayer pid x y angle moving) s = Inr (update_player pid x y angle moving s)"
| "apply_op now (RemovePlayer pid) s = Inr (remove_player pid s)"
| "apply_op now (AddEnemy eid nm x y angle) s = Inr (add_enemy eid nm x y angle s)"
| "apply_op now (RemoveEnemy eid) s = Inr (remove_enemy eid s)"
| "apply_op now (AddAbility aid nm duration) s = Inr (add_ability now aid nm duration s)"
| "apply_op now GcAbilities s = gc_abilities now s"
| "apply_op now Reset s = Inr (reset s)"
| "apply_op now Pause s = Inr (pause now s)"
| "apply_op now (Unpause offset) s = Inr (unpause offset s)"
| "apply_op now (AddBuff pid i dl) s =
     (case map_of (players s) pid of
        None \<Rightarrow> Inl KeyError
      | Some p \<Rightarrow> Inr (set_player pid (add_buff i dl p) s))"
| "apply_op now (RemoveBuff pid i) s =
     (case map_of (players s) pid of
        None \<Rightarrow> Inl KeyError
      | Some p \<Rightarrow>
          (case remove_buff i p of
             Inl e \<Rightarrow> Inl e
           | Inr p' \<Rightarrow> Inr (set_player pid p' s)))"
| "apply_op now (Face pid angle) s =
     (case map_of (players s) pid of
        None \<Rightarrow> Inl KeyError
      | Some p \<Rightarrow> Inr (set_player pid (p\<lparr>p_angle := angle\<rparr>) s))"

fun run_ops :: "(real \<times> op) list \<Rightarrow> SimState \<Rightarrow> error + SimState" where
  "run_ops [] s = Inr s"
| "run_ops ((now, c) # cs) s =
     (case apply_op now c s of
        Inl e \<Rightarrow> Inl e
      | Inr s' \<Rightarrow> run_ops cs s')"

fun is_unpause :: "op \<Rightarrow> bool" where
  "is_unpause (Unpause offset) = True"
| "is_unpause c = False"

section \<open>Arithmetic on Python numbers\<close>

text \<open>
  Float results are rounded to binary64, to the nearest value and to the even one of two
  nearest: \<open>fl\<close> rounds a real to a multiple of the unit in its last place, which is
  \<open>2\<close> to the power \<open>ulp_exp\<close>, 52 places below the leading bit and never below the
  subnormal unit. A rounded value of magnitude \<open>2 ^ 1024\<close> or more does not fit a float.
\<close>

definition ulp_exp :: "real \<Rightarrow> int" where
  "ulp_exp x = max (\<lfloor>log 2 \<bar>x\<bar>\<rfloor> - 52) (- 1074)"

definition round_half_even :: "real \<Rightarrow> int" where
  "round_half_even y =
     (let f = \<lfloor>y\<rfloor>
      in if y - of_int f < 1 / 2 then f
         else if 1 / 2 < y - of_int f then f + 1
         else if even f then f else f + 1)"

definition fl :: "real \<Rightarrow> real" where
  "fl x = (if x = 0 then 0
           else of_int (round_half_even (x / 2 powi ulp_exp x)) * 2 powi ulp_exp x)"

definition fits :: "real \<Rightarrow> bool" where
  "fits v = (\<bar>v\<bar> < 2 ^ 1024)"

text \<open>
  An int operand of a float operation is converted to a float first, which raises when
  the int is too large. The operations \<^verbatim>\<open>+\<close>, \<^verbatim>\<open>-\<close>, \<^verbatim>\<open>*\<close> and \<^verbatim>\<open>/\<close> are exact on two ints
  (\<^verbatim>\<open>/\<close> rounds the quotient) and round the exact result on floats.
\<close>

fun to_float :: "pynum \<Rightarrow> error + real" where
  "to_float (PFloat r) = Inr r"
| "to_float (PInt i) =
     (if fits (fl (of_int i)) then Inr (fl (of_int i)) else Inl OverflowError)"

definition rounded :: "real \<Rightarrow> error + pynum" where
  "rounded v = (if fits (fl v) then Inr (PFloat (fl v)) else Inl NonFinite)"

definition float_op :: "(real \<Rightarrow> real \<Rightarrow> real) \<Rightarrow> pynum \<Rightarrow> pynum \<Rightarrow> error + pynum" where
  "float_op f a b =
     (case to_float a of
        Inl e \<Rightarrow> Inl e
      | Inr x \<Rightarrow> (case to_float b of Inl e \<Rightarrow> Inl e | Inr y \<Rightarrow> rounded (f x y)))"

fun py_add :: "pynum \<Rightarrow> pynum \<Rightarrow> error + pynum" where
  "py_add (PInt i) (PInt j) = Inr (PInt (i + j))"
| "py_add a b = float_op (+) a b"

fun py_sub :: "pynum \<Rightarrow> pynum \<Rightarrow> error + pynum" where
  "py_sub (PInt i) (PInt j) = Inr (PInt (i - j))"
| "py_sub a b = float_op (-) a b"

fun py_mul :: "pynum \<Rightarrow> pynum \<Rightarrow> error + pynum" where
  "py_mul (PInt i) (PInt j) = Inr (PInt (i * j))"
| "py_mul a b = float_op (*) a b"

fun py_div :: "pynum \<Rightarrow> pynum \<Rightarrow> error + pynum" where
  "py_div (PInt i) (PInt j) =
     (if j = 0 then Inl ZeroDivisionError
      else if fits (fl (of_int i / of_int j)) then Inr (PFloat (fl (of_int i / of_int j)))
      else Inl OverflowError)"
| "py_div a b =
     (case to_float a of
        Inl e \<Rightarrow> Inl e
      | Inr x \<Rightarrow>
          (case to_float b of
             Inl e \<Rightarrow> Inl e
           | Inr y \<Rightarrow> if y = 0 then Inl ZeroDivisionError else rounded (x / y)))"

text \<open>
  \<^verbatim>\<open>x ** 2\<close>, \<^verbatim>\<open>math.sqrt\<close> and \<^verbatim>\<open>math.atan2\<close>, with the float results correctly rounded. The
  platform's library may differ from that in the last bit where the exact result is no
  float; a float power that overflows raises.
\<close>

fun py_pow2 :: "pynum \<Rightarrow> error + pynum" where
  "py_pow2 (PInt i) = Inr (PInt (i * i))"
| "py_pow2 (PFloat x) =
     (if fits (fl (x * x)) then Inr (PFloat (fl (x * x))) else Inl OverflowError)"

definition py_sqrt :: "pynum \<Rightarrow> error + pynum" where
  "py_sqrt a =
     (case to_float a of
        Inl e \<Rightarrow> Inl e
      | Inr x \<Rightarrow> if x < 0 then Inl ValueError else Inr (PFloat (fl (sqrt x))))"

definition atan2 :: "real \<Rightarrow> real \<Rightarrow> real" where
  "atan2 y x =
     (if 0 < x then arctan (y / x)
      else if x < 0 \<and> 0 \<le> y then arctan (y / x) + pi
      else if x < 0 then arctan (y / x) - pi
      else if 0 < y then pi / 2
      else if y < 0 then - (pi / 2)
      else 0)"

definition py_atan2 :: "pynum \<Rightarrow> pynum \<Rightarrow> error + pynum" where
  "py_atan2 a b =
     (case to_float a of
        Inl e \<Rightarrow> Inl e
      | Inr y \<Rightarrow> (case to_float b of Inl e \<Rightarrow> Inl e | Inr x \<Rightarrow> Inr (PFloat (fl (atan2 y x)))))"

text \<open>
  The arithmetic that \<^verbatim>\<open>ai.py\<close> uses is an argument of its model, so that what is proved
  for every arithmetic holds whatever the platform rounds; \<open>python_arith\<close> is the
  arithmetic defined above.
\<close>

record arith =
  a_add :: "pynum \<Rightarrow> pynum \<Rightarrow> error + pynum"
  a_sub :: "pynum \<Rightarrow> pynum \<Rightarrow> error + pynum"
  a_mul :: "pynum \<Rightarrow> pynum \<Rightarrow> error + pynum"
  a_div :: "pynum \<Rightarrow> pynum \<Rightarrow> error + pynum"
  a_pow2 :: "pynum \<Rightarrow> error + pynum"
  a_sqrt :: "pynum \<Rightarrow> error + pynum"
  a_atan2 :: "pynum \<Rightarrow> pynum \<Rightarrow> error + pynum"

definition python_arith :: arith where
  "python_arith =
     \<lparr>a_add = py_add, a_sub = py_sub, a_mul = py_mul, a_div = py_div, a_pow2 = py_pow2,
      a_sqrt = py_sqrt, a_atan2 = py_atan2\<rparr>"

text \<open>Sequencing: the first exception ends the computation.\<close>

definition and_then :: "error + 'a \<Rightarrow> ('a \<Rightarrow> error + 'b) \<Rightarrow> error + 'b" where
  "and_then r f = (case r of Inl e \<Rightarrow> Inl e | Inr x \<Rightarrow> f x)"

section \<open>The strategies of ai.py\<close>

definition MOVE_SPEED :: pynum where
  "MOVE_SPEED = PInt 12500"

text \<open>
  \<^verbatim>\<open>norm(vx, vy)\<close> divides both components by \<^verbatim>\<open>math.sqrt(vx**2 + vy**2)\<close>.
\<close>

definition norm_xy :: "arith \<Rightarrow> pynum \<Rightarrow> pynum \<Rightarrow> error + pynum \<times> pynum" where
  "norm_xy ar v_x v_y =
     and_then (a_pow2 ar v_x) (\<lambda>s_x.
     and_then (a_pow2 ar v_y) (\<lambda>s_y.
     and_then (a_add ar s_x s_y) (\<lambda>ss.
     and_then (a_sqrt ar ss) (\<lambda>dist.
     and_then (a_div ar v_x dist) (\<lambda>n_x.
     and_then (a_div ar v_y dist) (\<lambda>n_y.
     Inr (n_x, n_y)))))))"

text \<open>
  One call \<^verbatim>\<open>self.state.update_player(self.pid, ax, ay, angle, moving)\<close> of \<^verbatim>\<open>go_to\<close>.
\<close>

record update_call =
  c_pid :: int
  c_x :: pynum
  c_y :: pynum
  c_angle :: pynum
  c_moving :: bool

text \<open>
  \<^verbatim>\<open>go_to\<close> suspends at every \<^verbatim>\<open>await self.next_tick()\<close>, and other code may pause the clock
  or change the registry before it resumes. What it reads after each tick is
  \<^verbatim>\<open>self.state.time()\<close>: the model takes the reading \<open>t0\<close> made before the loop and the
  list of the readings made after each tick, as far as the run is observed. It returns
  the calls of \<^verbatim>\<open>update_player\<close> made so far, in order, and whether the routine has
  returned, is suspended at a tick whose reading is not in the list, or has stopped with
  an exception.
\<close>

datatype status = Returned | Suspended | Raised error

text \<open>The arithmetic of one pass through the body of the loop.\<close>

definition go_to_tick ::
  "arith \<Rightarrow> pynum \<Rightarrow> pynum \<Rightarrow> pynum \<Rightarrow> pynum \<Rightarrow> pynum \<Rightarrow> pynum \<Rightarrow> pynum \<Rightarrow> pynum
     \<Rightarrow> error + pynum \<times> pynum \<times> bool" where
  "go_to_tick ar b_x b_y d_x d_y a_x a_y t1 t2 =
     and_then (a_sub ar t2 t1) (\<lambda>dt.
     and_then (a_mul ar MOVE_SPEED dt) (\<lambda>dist.
     and_then (a_sub ar b_x a_x) (\<lambda>r_x.
     and_then (a_sub ar b_y a_y) (\<lambda>r_y.
     and_then (a_pow2 ar r_x) (\<lambda>s_x.
     and_then (a_pow2 ar r_y) (\<lambda>s_y.
     and_then (a_add ar s_x s_y) (\<lambda>ss.
     and_then (a_sqrt ar ss) (\<lambda>rdist.
       if py_real rdist \<ge> py_real dist then
         and_then (a_mul ar d_x dist) (\<lambda>m_x.
         and_then (a_add ar a_x m_x) (\<lambda>a_x'.
         and_then (a_mul ar d_y dist) (\<lambda>m_y.
         and_then (a_add ar a_y m_y) (\<lambda>a_y'.
         Inr (a_x', a_y', True)))))
       else Inr (b_x, b_y, False)))))))))"

fun go_to_loop ::
  "arith \<Rightarrow> int \<Rightarrow> pynum \<Rightarrow> pynum \<Rightarrow> pynum \<Rightarrow> pynum \<Rightarrow> pynum \<Rightarrow> pynum \<Rightarrow> pynum \<Rightarrow> pynum
     \<Rightarrow> pynum list \<Rightarrow> update_call list \<times> status" where
  "go_to_loop ar pid b_x b_y d_x d_y angle a_x a_y t2 [] =
     (if py_real a_x \<noteq> py_real b_x \<or> py_real a_y \<noteq> py_real b_y then ([], Suspended)
      else ([], Returned))"
| "go_to_loop ar pid b_x b_y d_x d_y angle a_x a_y t2 (t # ts) =
     (if py_real a_x \<noteq> py_real b_x \<or> py_real a_y \<noteq> py_real b_y then
        (case go_to_tick ar b_x b_y d_x d_y a_x a_y t2 t of
           Inl e \<Rightarrow> ([], Raised e)
         | Inr (a_x', a_y', moving) \<Rightarrow>
             (let (calls, st) = go_to_loop ar pid b_x b_y d_x d_y angle a_x' a_y' t ts
              in (\<lparr>c_pid = pid, c_x = a_x', c_y = a_y', c_angle = angle, c_moving = moving\<rparr>
                    # calls,
                  st)))
      else ([], Returned))"

definition go_to ::
  "arith \<Rightarrow> SimState \<Rightarrow> int \<Rightarrow> pynum \<Rightarrow> pynum \<Rightarrow> pynum \<Rightarrow> pynum list
     \<Rightarrow> update_call list \<times> status" where
  "go_to ar s pid b_x b_y t0 ts =
     (case map_of (players s) pid of
        None \<Rightarrow> ([], Raised KeyError)
      | Some me \<Rightarrow>
          (let a_x = p_x me; a_y = p_y me
           in if py_real a_x = py_real b_x \<and> py_real a_y = py_real b_y then ([], Returned)
              else
                (case and_then (a_sub ar b_x a_x) (\<lambda>v_x.
                      and_then (a_sub ar b_y a_y) (\<lambda>v_y.
                      and_then (norm_xy ar v_x v_y) (\<lambda>(d_x, d_y).
                      and_then (a_atan2 ar d_y d_x) (\<lambda>angle.
                      Inr (go_to_loop ar pid b_x b_y d_x d_y angle a_x a_y t0 ts)))))
                 of Inl e \<Rightarrow> ([], Raised e) | Inr r \<Rightarrow> r)))"

text \<open>
  What one tick of the loop does, said with the operations of the arithmetic alone: from
  the position \<open>(q_x, q_y)\<close> and the readings \<open>t1\<close>, \<open>t2\<close> it computes the step
  \<open>dist = MOVE_SPEED * (t2 - t1)\<close> and the remaining distance
  \<open>rdist = sqrt((b_x - q_x)**2 + (b_y - q_y)**2)\<close>; the call \<open>c\<close> has \<open>moving\<close> set when
  \<open>dist < rdist\<close> and not set when \<open>rdist < dist\<close>; with \<open>moving\<close> set it passes
  \<open>q_x + d_x * dist\<close> and \<open>q_y + d_y * dist\<close>, and otherwise the target itself.
\<close>

definition tick_call ::
  "arith \<Rightarrow> pynum \<Rightarrow> pynum \<Rightarrow> pynum \<Rightarrow> pynum \<Rightarrow> pynum \<Rightarrow> pynum \<Rightarrow> pynum \<Rightarrow> pynum
     \<Rightarrow> update_call \<Rightarrow> bool" where
  "tick_call ar b_x b_y d_x d_y q_x q_y t1 t2 c =
     (\<exists>dt dist r_x r_y s_x s_y ss rdist.
        a_sub ar t2 t1 = Inr dt \<and> a_mul ar MOVE_SPEED dt = Inr dist
      \<and> a_sub ar b_x q_x = Inr r_x \<and> a_sub ar b_y q_y = Inr r_y
      \<and> a_pow2 ar r_x = Inr s_x \<and> a_pow2 ar r_y = Inr s_y
      \<and> a_add ar s_x s_y = Inr ss \<and> a_sqrt ar ss = Inr rdist
      \<and> (py_real dist < py_real rdist \<longrightarrow> c_moving c)
      \<and> (py_real rdist < py_real dist \<longrightarrow> \<not> c_moving c)
      \<and> (c_moving c \<longrightarrow>
            (\<exists>m_x m_y. a_mul ar d_x dist = Inr m_x \<and> a_add ar q_x m_x = Inr (c_x c)
                     \<and> a_mul ar d_y dist = Inr m_y \<and> a_add ar q_y m_y = Inr (c_y c)))
      \<and> (\<not> c_moving c \<longrightarrow> c_x c = b_x \<and> c_y c = b_y))"

text \<open>The straight-line distance from the position of a call to the target.\<close>

definition dist_to :: "pynum \<Rightarrow> pynum \<Rightarrow> update_call \<Rightarrow> real" where
  "dist_to b_x b_y c =
     sqrt ((py_real b_x - py_real (c_x c))\<^sup>2 + (py_real b_y - py_real (c_y c))\<^sup>2)"

text \<open>
  \<^verbatim>\<open>consistent_shuffle\<close> sorts the list, derives a seed from the sorted list and shuffles
  with a generator made from that seed. Python's \<^verbatim>\<open>random\<close> module is not part of the
  repository: \<open>shuffle\<close>, the result of \<^verbatim>\<open>random.Random(seed).shuffle\<close> as a function of the
  seed and the list, is a parameter.
\<close>

definition seed_of :: "int list \<Rightarrow> int" where
  "seed_of pids = sum_list (map (\<lambda>(i, p). (p + 3) * (int i + 7)) (enumerate 0 pids))"

definition consistent_shuffle :: "(int \<Rightarrow> int list \<Rightarrow> int list) \<Rightarrow> int list \<Rightarrow> int list" where
  "consistent_shuffle shuffle pids =
     (let pids' = sort pids;
          seed = seed_of pids'
      in shuffle seed pids')"

section \<open>Invariants of the registry\<close>

text \<open>
  What the registry's own writers maintain of the abilities dictionary: keys are unique
  (it is a dictionary) and every ability is stored under its own id (\<^verbatim>\<open>add_ability\<close> is
  the only writer, and stores \<^verbatim>\<open>Ability(id=aid, ...)\<close> under \<^verbatim>\<open>aid\<close>).
\<close>

definition wf_abilities :: "SimState \<Rightarrow> bool" where
  "wf_abilities s =
     (distinct (map fst (abilities s)) \<and> list_all (\<lambda>(k, abi). a_id abi = k) (abilities s))"

definition expired :: "real \<Rightarrow> SimState \<Rightarrow> Ability \<Rightarrow> bool" where
  "expired now s abi = (gc_deadline abi < time now s)"

definition int_positions :: "SimState \<Rightarrow> bool" where
  "int_positions s = list_all (\<lambda>(k, p). is_int (p_x p) \<and> is_int (p_y p)) (players s)"

section \<open>The virtual clock\<close>

lemma time_paused: "pause_time s = Some t \<Longrightarrow> time now s = t"
  by (simp add: time_def)

lemma time_running: "pause_time s = None \<Longrightarrow> time now s = now - pause_offset s - server_offset s"
  by (simp add: time_def)

text \<open>
  C10. Calling \<^verbatim>\<open>pause()\<close> on a clock that is already paused leaves the whole state as it
  is: \<^verbatim>\<open>time()\<close> returns the stored pause instant, which is stored again.
\<close>

theorem pause_idempotent:
  "pause_time s \<noteq> None \<Longrightarrow> pause now s = s"
  by (auto simp: pause_def time_def)

theorem pause_idempotent_witness:
  "pause_time (pause 10 init_state) \<noteq> None
   \<and> pause 25 (pause 10 init_state) = pause 10 init_state"
  using pause_idempotent [of "pause 10 init_state" 25]
  by (simp add: pause_def)

lemma gc_abilities_clock:
  "gc_abilities now s = Inr s' \<Longrightarrow>
     pause_time s' = pause_time s \<and> pause_offset s' = pause_offset s
     \<and> server_offset s' = server_offset s"
  by (auto simp: gc_abilities_def split: sum.splits)

lemma apply_op_keeps_pause:
  assumes "apply_op now c s = Inr s'" and "\<not> is_unpause c" and "pause_time s = Some t"
  shows "pause_time s' = Some t"
proof (cases c)
  case GcAbilities
  with assms show ?thesis using gc_abilities_clock [of now s s'] by simp
next
  case Pause
  with assms show ?thesis by (auto simp: pause_def time_def)
next
  case (Unpause offset)
  with assms show ?thesis by simp
qed (use assms in \<open>auto simp: add_player_def update_player_def remove_player_def add_enemy_def
      remove_enemy_def add_ability_def reset_def set_player_def
      split: option.splits sum.splits if_splits\<close>)

lemma run_ops_keeps_pause:
  "run_ops cs s = Inr s' \<Longrightarrow> \<forall>e \<in> set cs. \<not> is_unpause (snd e) \<Longrightarrow> pause_time s = Some t
     \<Longrightarrow> pause_time s' = Some t"
proof (induction cs arbitrary: s)
  case Nil
  then show ?case by simp
next
  case (Cons e cs)
  obtain now c where e: "e = (now, c)" by (cases e)
  from Cons.prems(1) e obtain s1 where s1: "apply_op now c s = Inr s1" and r: "run_ops cs s1 = Inr s'"
    by (auto split: sum.splits)
  from Cons.prems(2) e have nc: "\<not> is_unpause c" by simp
  have "pause_time s1 = Some t"
    using apply_op_keeps_pause [OF s1 nc Cons.prems(3)] .
  with Cons.IH [OF r] Cons.prems(2) show ?case by simp
qed

text \<open>
  C5. \<^verbatim>\<open>time()\<close> returns the stored pause instant when the clock is paused, and the wall
  clock minus the pause offset minus the server offset otherwise. After \<^verbatim>\<open>pause()\<close> at
  wall-clock \<open>now0\<close>, whatever registry operations other than \<^verbatim>\<open>unpause\<close> run and whatever
  the wall clock reads later, \<^verbatim>\<open>time()\<close> still returns the reading of the moment of the
  pause.
\<close>

theorem time_reading:
  "(pause_time s = Some t \<longrightarrow> time now s = t)
   \<and> (pause_time s = None \<longrightarrow> time now s = now - pause_offset s - server_offset s)
   \<and> ((\<forall>e \<in> set cs. \<not> is_unpause (snd e)) \<and> run_ops cs (pause now0 s) = Inr s'
        \<longrightarrow> time now1 s' = time now0 s)"
proof -
  have "time now1 s' = time now0 s"
    if a: "\<forall>e \<in> set cs. \<not> is_unpause (snd e)" and b: "run_ops cs (pause now0 s) = Inr s'"
  proof -
    have "pause_time (pause now0 s) = Some (time now0 s)" by (simp add: pause_def)
    from run_ops_keeps_pause [OF b a this] show ?thesis by (rule time_paused)
  qed
  then show ?thesis by (simp add: time_paused time_running)
qed

theorem time_reading_witness:
  "pause_time (pause 10 init_state) = Some 10 \<and> time 99 (pause 10 init_state) = 10
   \<and> pause_time init_state = None \<and> time 99 init_state = 99
   \<and> run_ops [(11, AddPlayer 1 ''hi''), (12, Pause), (13, UpdatePlayer 1 (PFloat 2) (PInt 3) 0 True)]
        (pause 10 init_state)
      = Inr (update_player 1 (PFloat 2) (PInt 3) 0 True (add_player 1 ''hi'' (pause 10 init_state)))
   \<and> time 50 (update_player 1 (PFloat 2) (PInt 3) 0 True (add_player 1 ''hi'' (pause 10 init_state)))
      = time 10 init_state"
proof -
  let ?cs = "[(11::real, AddPlayer 1 ''hi''), (12, Pause), (13, UpdatePlayer 1 (PFloat 2) (PInt 3) 0 True)]"
  let ?s' = "update_player 1 (PFloat 2) (PInt 3) 0 True (add_player 1 ''hi'' (pause 10 init_state))"
  have nu: "\<forall>e \<in> set ?cs. \<not> is_unpause (snd e)" by simp
  have run: "run_ops ?cs (pause 10 init_state) = Inr ?s'"
    by (simp add: pause_def time_def init_state_def add_player_def update_player_def new_player_def)
  have p: "pause_time (pause 10 init_state) = Some 10"
    by (simp add: pause_def time_def init_state_def)
  have n: "pause_time init_state = None" by (simp add: init_state_def)
  have 1: "time 99 (pause 10 init_state) = 10"
    using time_reading [where s = "pause 10 init_state" and t = 10 and now = 99 and cs = "[]"] p
    by blast
  have 2: "time 99 init_state = 99"
    using time_reading [where s = init_state and now = 99 and cs = "[]"] n
    by (simp add: init_state_def)
  have 3: "time 50 ?s' = time 10 init_state"
    using time_reading [where s = init_state and cs = ?cs and ?now0.0 = 10 and s' = ?s'
        and ?now1.0 = 50] nu run
    by blast
  from 1 2 3 p n run show ?thesis by simp
qed

text \<open>
  C2 (as amended). \<^verbatim>\<open>unpause(c)\<close> clears the stored pause instant and sets the pause
  offset to \<open>c\<close>, replacing its previous value; nothing else of the state changes. The
  next reading of \<^verbatim>\<open>time()\<close>, at wall clock \<open>now\<close>, is \<open>now - c - server_offset\<close>, which
  equals the reading frozen by the pause exactly when \<open>c\<close> is \<open>now - server_offset\<close> minus
  that reading.
\<close>

theorem unpause_sets_offset:
  "pause_time (unpause c s) = None
   \<and> pause_offset (unpause c s) = c
   \<and> server_offset (unpause c s) = server_offset s
   \<and> players (unpause c s) = players s
   \<and> enemies (unpause c s) = enemies s
   \<and> abilities (unpause c s) = abilities s
   \<and> time now (unpause c s) = now - c - server_offset s
   \<and> (pause_time s = Some t \<longrightarrow>
        (time now (unpause c s) = time now s \<longleftrightarrow> c = now - server_offset s - t))"
  by (auto simp: unpause_def time_def)

theorem unpause_sets_offset_witness:
  "pause_time (pause 10 init_state) = Some 10
   \<and> pause_offset (unpause 7 (pause 10 init_state)) = 7
   \<and> time 17 (unpause 7 (pause 10 init_state)) = time 17 (pause 10 init_state)"
  using unpause_sets_offset [of 7 "pause 10 init_state" 17 10]
  by (simp add: pause_def time_def init_state_def)

text \<open>
  The claim as the specification states it, that the pause offset becomes its previous
  value plus \<open>c\<close>, fails on the second pause of a session: after \<^verbatim>\<open>unpause(5)\<close> the offset is
  5, and a later \<^verbatim>\<open>unpause(3)\<close> leaves 3, not 8.
\<close>

theorem unpause_accumulates_counterexample:
  "pause_offset (pause 20 (unpause 5 (pause 10 init_state))) = 5
   \<and> pause_offset (unpause 3 (pause 20 (unpause 5 (pause 10 init_state)))) = 3
   \<and> pause_offset (unpause 3 (pause 20 (unpause 5 (pause 10 init_state))))
       \<noteq> pause_offset (pause 20 (unpause 5 (pause 10 init_state))) + 3"
  by (simp add: unpause_def pause_def init_state_def)

section \<open>The entity registry\<close>

lemma list_all_update:
  "list_all P al \<Longrightarrow> P (k, v) \<Longrightarrow> list_all P (AList.update k v al)"
  by (induction al) auto

lemma list_all_delete:
  "list_all P al \<Longrightarrow> list_all P (AList.delete k al)"
  by (induction al) auto

lemma del_all_present:
  "distinct ks \<Longrightarrow> set ks \<subseteq> fst ` set d \<Longrightarrow>
     del_all ks d = Inr (filter (\<lambda>(k, v). k \<notin> set ks) d)"
proof (induction ks arbitrary: d)
  case Nil
  then show ?case by simp
next
  case (Cons k ks)
  have sub: "set ks \<subseteq> fst ` set (AList.delete k d)"
  proof
    fix j assume j: "j \<in> set ks"
    with Cons.prems have "j \<noteq> k" and "j \<in> fst ` set d" by auto
    then show "j \<in> fst ` set (AList.delete k d)"
      by (force simp: AList.delete_eq)
  qed
  from Cons.prems have "has_key k d" by (simp add: has_key_def)
  moreover from Cons.prems have "distinct ks" by simp
  note Cons.IH [OF this sub]
  moreover have "filter (\<lambda>(j, v). j \<notin> set ks) (AList.delete k d)
                 = filter (\<lambda>(j, v). j \<notin> set (k # ks)) d"
    by (induction d) (auto simp: AList.delete_eq)
  ultimately show ?case by simp
qed

lemma to_remove_keys:
  assumes "wf_abilities s"
  shows "set (to_remove now s) = {k. \<exists>abi. (k, abi) \<in> set (abilities s) \<and> expired now s abi}"
proof -
  from assms have ids: "\<And>k abi. (k, abi) \<in> set (abilities s) \<Longrightarrow> a_id abi = k"
    by (auto simp: wf_abilities_def list_all_iff)
  show ?thesis
  proof (intro set_eqI iffI)
    fix k assume "k \<in> set (to_remove now s)"
    then obtain j abi where "(j, abi) \<in> set (abilities s)" and "expired now s abi" and "k = a_id abi"
      by (auto simp: to_remove_def expired_def)
    with ids [of j abi] show "k \<in> {k. \<exists>abi. (k, abi) \<in> set (abilities s) \<and> expired now s abi}"
      by auto
  next
    fix k assume "k \<in> {k. \<exists>abi. (k, abi) \<in> set (abilities s) \<and> expired now s abi}"
    then obtain abi where m: "(k, abi) \<in> set (abilities s)" and x: "expired now s abi" by blast
    from m have "abi \<in> snd ` set (abilities s)" by force
    with x ids [OF m] show "k \<in> set (to_remove now s)"
      by (auto simp: to_remove_def expired_def)
  qed
qed

lemma filter_to_remove:
  assumes "wf_abilities s"
  shows "filter (\<lambda>(k, v). k \<notin> set (to_remove now s)) (abilities s)
         = filter (\<lambda>(k, abi). \<not> expired now s abi) (abilities s)"
proof (rule filter_cong [OF refl])
  fix e assume e: "e \<in> set (abilities s)"
  obtain k abi where ke: "e = (k, abi)" by (cases e)
  from assms have d: "distinct (map fst (abilities s))" by (simp add: wf_abilities_def)
  have "(\<exists>abi'. (k, abi') \<in> set (abilities s) \<and> expired now s abi') \<longleftrightarrow> expired now s abi"
  proof
    assume "\<exists>abi'. (k, abi') \<in> set (abilities s) \<and> expired now s abi'"
    then obtain abi' where m: "(k, abi') \<in> set (abilities s)" and x: "expired now s abi'" by blast
    from d m e ke have "abi' = abi" by (metis eq_key_imp_eq_value)
    with x show "expired now s abi" by simp
  next
    assume "expired now s abi"
    with e ke show "\<exists>abi'. (k, abi') \<in> set (abilities s) \<and> expired now s abi'" by blast
  qed
  then show "(case e of (k, v) \<Rightarrow> k \<notin> set (to_remove now s))
             = (case e of (k, abi) \<Rightarrow> \<not> expired now s abi)"
    unfolding ke to_remove_keys [OF assms] by auto
qed

lemma gc_abilities_filter:
  assumes "wf_abilities s"
  shows "gc_abilities now s
         = Inr (s\<lparr>abilities := filter (\<lambda>(k, abi). \<not> expired now s abi) (abilities s)\<rparr>)"
proof -
  have "set (to_remove now s) \<subseteq> fst ` set (abilities s)"
    by (force simp: to_remove_keys [OF assms])
  moreover have "distinct (to_remove now s)" by (simp add: to_remove_def)
  ultimately have "del_all (to_remove now s) (abilities s)
      = Inr (filter (\<lambda>(k, v). k \<notin> set (to_remove now s)) (abilities s))"
    by (rule del_all_present [rotated])
  then show ?thesis by (simp add: gc_abilities_def filter_to_remove [OF assms])
qed

lemma wf_abilities_filter:
  "wf_abilities s \<Longrightarrow> wf_abilities (s\<lparr>abilities := filter P (abilities s)\<rparr>)"
  by (auto simp: wf_abilities_def list_all_iff distinct_map_filter)

lemma expired_abilities_update [simp]:
  "expired now (s\<lparr>abilities := d\<rparr>) abi = expired now s abi"
  by (simp add: expired_def time_def split: option.splits)

text \<open>
  C3. On a registry whose abilities dictionary is well formed, one call of
  \<^verbatim>\<open>gc_abilities\<close> raises nothing and keeps, in order, exactly the abilities whose
  \<^verbatim>\<open>gc_deadline\<close> is not strictly less than \<^verbatim>\<open>time()\<close>; the abilities it removes are those
  with \<^verbatim>\<open>gc_deadline < time()\<close>, and nothing else of the state changes. A second call at the
  same wall-clock reading returns the state of the first unchanged.
\<close>

theorem gc_abilities_exact:
  assumes "wf_abilities s"
  shows "\<exists>s'. gc_abilities now s = Inr s'
           \<and> s' = s\<lparr>abilities := filter (\<lambda>(k, abi). \<not> gc_deadline abi < time now s) (abilities s)\<rparr>
           \<and> set (abilities s) - set (abilities s')
               = {(k, abi). (k, abi) \<in> set (abilities s) \<and> gc_deadline abi < time now s}
           \<and> gc_abilities now s' = Inr s'"
proof -
  let ?s' = "s\<lparr>abilities := filter (\<lambda>(k, abi). \<not> expired now s abi) (abilities s)\<rparr>"
  have 1: "gc_abilities now s = Inr ?s'" by (rule gc_abilities_filter [OF assms])
  have wf': "wf_abilities ?s'" by (rule wf_abilities_filter [OF assms])
  have "gc_abilities now ?s' = Inr (?s'\<lparr>abilities := filter (\<lambda>(k, abi). \<not> expired now ?s' abi) (abilities ?s')\<rparr>)"
    by (rule gc_abilities_filter [OF wf'])
  also have "filter (\<lambda>(k, abi). \<not> expired now ?s' abi) (abilities ?s') = abilities ?s'"
    by (simp add: split_def)
  finally have 2: "gc_abilities now ?s' = Inr ?s'" by simp
  have 3: "set (abilities s) - set (abilities ?s')
             = {(k, abi). (k, abi) \<in> set (abilities s) \<and> expired now s abi}"
    by auto
  from 1 2 3 show ?thesis unfolding expired_def by blast
qed

theorem gc_abilities_exact_witness:
  "wf_abilities (add_ability 100 1 ''Gnash'' 2 init_state)
   \<and> gc_abilities (207 / 2) (add_ability 100 1 ''Gnash'' 2 init_state) = Inr init_state
   \<and> gc_abilities (207 / 2) init_state = Inr init_state"
proof -
  let ?s = "add_ability 100 1 ''Gnash'' 2 init_state"
  have wf: "wf_abilities ?s"
    by (simp add: wf_abilities_def add_ability_def init_state_def)
  have t: "time (207 / 2) ?s = 207 / 2"
    by (simp add: time_def add_ability_def init_state_def)
  have f: "?s\<lparr>abilities := filter (\<lambda>(k, abi). \<not> gc_deadline abi < time (207 / 2) ?s) (abilities ?s)\<rparr>
           = init_state"
    unfolding t by (simp add: add_ability_def init_state_def time_def)
  from gc_abilities_exact [OF wf, of "207 / 2"] wf show ?thesis
    unfolding f by auto
qed

lemma gc_abilities_scenario:
  "gc_abilities (1029 / 10) (add_ability 100 1 ''Gnash'' 2 init_state)
   = Inr (add_ability 100 1 ''Gnash'' 2 init_state)"
  by (simp add: gc_abilities_def to_remove_def add_ability_def init_state_def time_def)

lemma wf_abilities_apply_op:
  assumes "wf_abilities s" and "apply_op now c s = Inr s'"
  shows "wf_abilities s'"
proof (cases c)
  case (AddAbility aid nm duration)
  with assms show ?thesis
    by (auto simp: wf_abilities_def add_ability_def distinct_update intro!: list_all_update)
next
  case GcAbilities
  with assms show ?thesis
    using gc_abilities_filter [OF assms(1), of now] wf_abilities_filter [OF assms(1)] by auto
qed (use assms in \<open>auto simp: wf_abilities_def add_player_def update_player_def remove_player_def
      add_enemy_def remove_enemy_def reset_def pause_def unpause_def set_player_def
      split: option.splits sum.splits if_splits\<close>)

lemma wf_abilities_run_ops:
  "wf_abilities s \<Longrightarrow> run_ops cs s = Inr s' \<Longrightarrow> wf_abilities s'"
proof (induction cs arbitrary: s)
  case Nil
  then show ?case by simp
next
  case (Cons e cs)
  obtain now c where e: "e = (now, c)" by (cases e)
  from Cons.prems(2) e obtain s1 where s1: "apply_op now c s = Inr s1" and r: "run_ops cs s1 = Inr s'"
    by (auto split: sum.splits)
  from Cons.IH [OF wf_abilities_apply_op [OF Cons.prems(1) s1] r] show ?case .
qed

lemma wf_abilities_reachable:
  "run_ops cs init_state = Inr s \<Longrightarrow> wf_abilities s"
  by (rule wf_abilities_run_ops [of init_state]) (simp_all add: wf_abilities_def init_state_def)

subsection \<open>Mutations that target an absent id\<close>

lemma update_player_unknown:
  "\<not> has_key pid (players s) \<Longrightarrow> update_player pid x y angle moving s = s"
  by (simp add: update_player_def has_key_def map_of_eq_None_iff [symmetric])

lemma remove_player_unknown:
  "\<not> has_key pid (players s) \<Longrightarrow> remove_player pid s = s"
  by (simp add: remove_player_def)

lemma remove_enemy_unknown:
  "\<not> has_key eid (enemies s) \<Longrightarrow> remove_enemy eid s = s"
  by (simp add: remove_enemy_def)

lemma remove_buff_unknown:
  "\<not> has_buff i p \<Longrightarrow> remove_buff i p = Inl KeyError"
  by (simp add: remove_buff_def has_buff_def)

text \<open>
  C4. \<^verbatim>\<open>update_player\<close>, \<^verbatim>\<open>remove_player\<close> and \<^verbatim>\<open>remove_enemy\<close> check that the id is present
  and return without a change when it is not, but \<^verbatim>\<open>Player.remove_buff\<close> is a bare
  \<^verbatim>\<open>del self.buffs[id]\<close>: for a buff that the player does not hold it raises
  \<^verbatim>\<open>KeyError\<close>, and so does the \<^verbatim>\<open>buffExpired\<close> path through the registry. Evaluated on a
  freshly added player, who holds no buff, and on a player whose buff an encounter reset
  has cleared before the expiry arrives.
\<close>

theorem remove_buff_absent_raises:
  "\<not> has_buff 7 (new_player 1 ''hi'')
   \<and> remove_buff 7 (new_player 1 ''hi'') = Inl KeyError
   \<and> apply_op 0 (RemoveBuff 1 7) (add_player 1 ''hi'' init_state) = Inl KeyError
   \<and> run_ops [(0, AddPlayer 1 ''hi''), (1, AddBuff 1 7 31), (2, Reset), (3, RemoveBuff 1 7)]
         init_state = Inl KeyError
   \<and> update_player 2 (PInt 5) (PInt 5) 0 True (add_player 1 ''hi'' init_state)
       = add_player 1 ''hi'' init_state
   \<and> remove_player 2 (add_player 1 ''hi'' init_state) = add_player 1 ''hi'' init_state
   \<and> remove_enemy 2 (add_player 1 ''hi'' init_state) = add_player 1 ''hi'' init_state"
  by (simp add: remove_buff_def has_buff_def has_key_def new_player_def add_player_def
      init_state_def update_player_def remove_player_def remove_enemy_def set_player_def
      add_buff_def reset_def player_reset_def)

subsection \<open>Encounter reset\<close>

text \<open>
  C8. \<^verbatim>\<open>reset()\<close> empties the enemies; it keeps the players' keys, in order, and gives
  every player the default position, angle, moving flag and buffs while keeping the
  player's id and name; the abilities and the three clock fields are as before.
\<close>

theorem reset_frame:
  "enemies (reset s) = []
   \<and> map fst (players (reset s)) = map fst (players s)
   \<and> list_all2
        (\<lambda>(k, p) (k', p').
            k' = k \<and> p_id p' = p_id p \<and> p_name p' = p_name p
            \<and> p_x p' = PInt 0 \<and> p_y p' = PInt 0 \<and> p_angle p' = 0
            \<and> \<not> p_moving p' \<and> p_buffs p' = [])
        (players s) (players (reset s))
   \<and> abilities (reset s) = abilities s
   \<and> pause_time (reset s) = pause_time s
   \<and> pause_offset (reset s) = pause_offset s
   \<and> server_offset (reset s) = server_offset s"
  by (simp add: reset_def player_reset_def list_all2_map2 list_all2_same split_def comp_def)

subsection \<open>Integer positions\<close>

lemma int_positions_set_player:
  "int_positions s \<Longrightarrow> is_int (p_x p) \<Longrightarrow> is_int (p_y p) \<Longrightarrow> int_positions (set_player pid p s)"
  by (simp add: int_positions_def set_player_def list_all_update)

lemma apply_op_int_positions:
  assumes "int_positions s" and "apply_op now c s = Inr s'"
  shows "int_positions s'"
proof -
  have memx: "\<And>pid p. map_of (players s) pid = Some p \<Longrightarrow> is_int (p_x p)"
    and memy: "\<And>pid p. map_of (players s) pid = Some p \<Longrightarrow> is_int (p_y p)"
    using assms(1) by (auto simp: int_positions_def list_all_iff dest!: map_of_SomeD)
  show ?thesis
  proof (cases c)
    case (AddPlayer pid nm)
    with assms show ?thesis
      by (auto simp: int_positions_def add_player_def new_player_def intro!: list_all_update)
  next
    case (UpdatePlayer pid x y angle moving)
    with assms show ?thesis
      by (auto simp: int_positions_def update_player_def split: option.splits
          intro!: list_all_update)
  next
    case (RemovePlayer pid)
    with assms show ?thesis
      by (auto simp: int_positions_def remove_player_def split: if_splits intro!: list_all_delete)
  next
    case GcAbilities
    with assms show ?thesis
      by (auto simp: int_positions_def gc_abilities_def split: sum.splits)
  next
    case Reset
    with assms show ?thesis
      by (auto simp: int_positions_def reset_def player_reset_def list_all_iff)
  next
    case (AddBuff pid i dl)
    with assms(2) obtain p where p: "map_of (players s) pid = Some p"
      and s': "s' = set_player pid (add_buff i dl p) s"
      by (auto split: option.splits)
    show ?thesis unfolding s'
      by (rule int_positions_set_player [OF assms(1)])
         (simp_all add: add_buff_def memx [OF p] memy [OF p])
  next
    case (RemoveBuff pid i)
    with assms(2) obtain p p' where p: "map_of (players s) pid = Some p"
      and p': "remove_buff i p = Inr p'" and s': "s' = set_player pid p' s"
      by (auto split: option.splits sum.splits)
    from p' have "p_x p' = p_x p" and "p_y p' = p_y p"
      by (auto simp: remove_buff_def split: if_splits)
    then show ?thesis unfolding s'
      by (intro int_positions_set_player [OF assms(1)]) (simp_all add: memx [OF p] memy [OF p])
  next
    case (Face pid angle)
    with assms(2) obtain p where p: "map_of (players s) pid = Some p"
      and s': "s' = set_player pid (p\<lparr>p_angle := angle\<rparr>) s"
      by (auto split: option.splits)
    show ?thesis unfolding s'
      by (rule int_positions_set_player [OF assms(1)]) (simp_all add: memx [OF p] memy [OF p])
  qed (use assms in \<open>auto simp: int_positions_def add_enemy_def remove_enemy_def add_ability_def
        pause_def unpause_def split: if_splits\<close>)
qed

lemma run_ops_int_positions:
  "int_positions s \<Longrightarrow> run_ops cs s = Inr s' \<Longrightarrow> int_positions s'"
proof (induction cs arbitrary: s)
  case Nil
  then show ?case by simp
next
  case (Cons e cs)
  obtain now c where e: "e = (now, c)" by (cases e)
  from Cons.prems(2) e obtain s1 where s1: "apply_op now c s = Inr s1" and r: "run_ops cs s1 = Inr s'"
    by (auto split: sum.splits)
  from Cons.IH [OF apply_op_int_positions [OF Cons.prems(1) s1] r] show ?case .
qed

text \<open>
  C9. \<^verbatim>\<open>update_player\<close> on a known player id stores \<^verbatim>\<open>int(x)\<close> and \<^verbatim>\<open>int(y)\<close>, which are
  ints whatever numbers \<open>x\<close> and \<open>y\<close> are (a float is truncated toward zero). A registry
  starts with no player, and every registry operation keeps every player's \<open>x\<close> and \<open>y\<close>
  ints, so they are ints in every state that a sequence of operations reaches.
\<close>

theorem update_player_stores_ints:
  "(map_of (players s) pid = Some p \<longrightarrow>
      (\<exists>p'. map_of (players (update_player pid x y angle moving s)) pid = Some p'
            \<and> p_x p' = PInt (py_int x) \<and> p_y p' = PInt (py_int y)
            \<and> is_int (p_x p') \<and> is_int (p_y p')))
   \<and> int_positions init_state
   \<and> (int_positions s \<and> run_ops cs s = Inr s' \<longrightarrow> int_positions s')"
  by (auto simp: update_player_def update_conv' int_positions_def init_state_def
      dest: run_ops_int_positions [unfolded int_positions_def])

theorem update_player_stores_ints_witness:
  "map_of (players (add_player 1 ''hi'' init_state)) 1 = Some (new_player 1 ''hi'')
   \<and> map_of (players (update_player 1 (PFloat (5 / 2)) (PFloat (- 7 / 2)) 0 True
                        (add_player 1 ''hi'' init_state))) 1
       = Some ((new_player 1 ''hi'')\<lparr>p_x := PInt 2, p_y := PInt (- 3), p_moving := True\<rparr>)
   \<and> int_positions (update_player 1 (PFloat (5 / 2)) (PFloat (- 7 / 2)) 0 True
                        (add_player 1 ''hi'' init_state))"
proof -
  let ?s = "add_player 1 ''hi'' init_state"
  let ?u = "update_player 1 (PFloat (5 / 2)) (PFloat (- 7 / 2)) 0 True ?s"
  have k: "map_of (players ?s) 1 = Some (new_player 1 ''hi'')"
    by (simp add: add_player_def init_state_def)
  have i: "int_positions ?s"
    by (simp add: int_positions_def add_player_def init_state_def new_player_def)
  have r: "run_ops [(0, UpdatePlayer 1 (PFloat (5 / 2)) (PFloat (- 7 / 2)) 0 True)] ?s = Inr ?u"
    by simp
  have v: "map_of (players ?u) 1
       = Some ((new_player 1 ''hi'')\<lparr>p_x := PInt 2, p_y := PInt (- 3), p_moving := True\<rparr>)"
    by (simp add: update_player_def add_player_def init_state_def new_player_def)
  from update_player_stores_ints [where s = ?s and pid = 1 and p = "new_player 1 ''hi''"
      and cs = "[(0, UpdatePlayer 1 (PFloat (5 / 2)) (PFloat (- 7 / 2)) 0 True)]" and s' = ?u]
    k i r v
  show ?thesis by blast
qed

section \<open>The deterministic shuffle\<close>

lemma sort_of_mset: "mset xs = mset ys \<Longrightarrow> sort xs = sort (ys :: int list)"
  by (metis sorted_list_of_multiset_mset)

text \<open>
  C7. \<^verbatim>\<open>consistent_shuffle\<close> gives the same final order for any two lists that are
  permutations of each other, in particular for two duplicate-free listings of the same
  set of ids, whatever the shuffle of the generator does with a seed and a list.
\<close>

theorem consistent_shuffle_order_independent:
  "(mset xs = mset ys \<longrightarrow> consistent_shuffle shuffle xs = consistent_shuffle shuffle ys)
   \<and> (distinct xs \<and> distinct ys \<and> set xs = set ys
        \<longrightarrow> consistent_shuffle shuffle xs = consistent_shuffle shuffle ys)"
proof -
  have a: "consistent_shuffle shuffle xs = consistent_shuffle shuffle ys" if "mset xs = mset ys"
    using sort_of_mset [OF that] by (simp add: consistent_shuffle_def)
  moreover have "mset xs = mset ys" if "distinct xs \<and> distinct ys \<and> set xs = set ys"
    using that set_eq_iff_mset_eq_distinct [of xs ys] by blast
  ultimately show ?thesis by blast
qed

theorem consistent_shuffle_order_independent_witness:
  "mset [3, 1, 2 :: int] = mset [2, 3, 1]
   \<and> distinct [3, 1, 2 :: int] \<and> distinct [2, 3, 1 :: int] \<and> set [3, 1, 2 :: int] = set [2, 3, 1]
   \<and> consistent_shuffle (\<lambda>seed l. if even seed then rev l else l) [3, 1, 2]
       = consistent_shuffle (\<lambda>seed l. if even seed then rev l else l) [2, 3, 1]
   \<and> consistent_shuffle (\<lambda>seed l. if even seed then rev l else l) [2, 3, 1] = [3, 2, 1]"
proof -
  have m: "mset [3, 1, 2 :: int] = mset [2, 3, 1]" by simp
  have d: "distinct [3, 1, 2 :: int] \<and> distinct [2, 3, 1 :: int] \<and> set [3, 1, 2 :: int] = set [2, 3, 1]"
    by auto
  have v: "consistent_shuffle (\<lambda>seed l. if even seed then rev l else l) [2, 3, 1] = [3, 2, 1]"
    by (simp add: consistent_shuffle_def seed_of_def enumerate_eq_zip upt_rec)
  from consistent_shuffle_order_independent
         [of "[3, 1, 2]" "[2, 3, 1]" "\<lambda>seed l. if even seed then rev l else l"] m d v
  show ?thesis by blast
qed

section \<open>Rounding to a float\<close>

lemma fl_zero [simp]: "fl 0 = 0"
  by (simp add: fl_def)

lemma round_half_even_of_int [simp]: "round_half_even (of_int n) = n"
  by (simp add: round_half_even_def)

lemma round_half_even_below:
  assumes "0 \<le> r" and "r < 1 / 2"
  shows "round_half_even (of_int n + r) = n"
proof -
  from assms have f: "\<lfloor>of_int n + r\<rfloor> = n" by linarith
  show ?thesis unfolding round_half_even_def Let_def f using assms by simp
qed

lemma two_powr_int: "(2 :: real) powr of_int k = 2 powi k"
  by (simp add: powr_real_of_int')

lemma floor_log2_less:
  assumes "0 < x" and "x < 2 powi k"
  shows "\<lfloor>log 2 x\<rfloor> < k"
proof -
  from assms(2) have "x < 2 powr of_int k" by (simp only: two_powr_int)
  with assms(1) have "log 2 x < of_int k" by (simp add: log_less_iff)
  then show ?thesis by linarith
qed

lemma floor_log2_eq:
  assumes "2 powi k \<le> x" and "x < 2 powi (k + 1)"
  shows "\<lfloor>log 2 x\<rfloor> = k"
proof -
  have "(0 :: real) < 2 powi k" by simp
  with assms(1) have pos: "0 < x" by linarith
  from assms have "2 powr of_int k \<le> x \<and> x < 2 powr of_int (k + 1)"
    by (simp only: two_powr_int)
  then have "2 powr of_int k \<le> x \<and> x < 2 powr (of_int k + 1)" by simp
  with pos show ?thesis by (simp only: floor_log_eq_powr_iff [of x 2 k, OF pos]) simp
qed

lemma fl_representable:
  assumes m: "\<bar>m\<bar> < 2 ^ 53" and e: "- 1074 \<le> e"
  shows "fl (of_int m * 2 powi e) = of_int m * 2 powi e"
proof (cases "m = 0")
  case True
  then show ?thesis by simp
next
  case False
  let ?x = "of_int m * 2 powi e :: real"
  have x0: "?x \<noteq> 0" using False by simp
  have ax: "\<bar>?x\<bar> = of_int \<bar>m\<bar> * 2 powi e" by (simp add: abs_mult)
  have "of_int \<bar>m\<bar> < (2 ^ 53 :: real)" using m by (metis of_int_less_iff of_int_numeral of_int_power)
  then have "\<bar>?x\<bar> < 2 ^ 53 * 2 powi e" unfolding ax by (simp add: mult_strict_right_mono)
  also have "\<dots> = 2 powi (53 + e)" by (simp add: power_int_add)
  finally have "\<lfloor>log 2 \<bar>?x\<bar>\<rfloor> < 53 + e" using x0 by (intro floor_log2_less) simp_all
  with e have q: "ulp_exp ?x \<le> e" unfolding ulp_exp_def by linarith
  define q where "q = ulp_exp ?x"
  from q have qe: "0 \<le> e - q" by (simp add: q_def)
  have "(2 :: real) powi e = 2 powi (e - q) * 2 powi q" by (simp flip: power_int_add)
  also have "(2 :: real) powi (e - q) = 2 ^ nat (e - q)" using qe by (simp add: power_int_nonneg_exp)
  finally have split: "(2 :: real) powi e = 2 ^ nat (e - q) * 2 powi q" .
  have "?x / 2 powi q = of_int m * 2 ^ nat (e - q)" unfolding split by simp
  also have "\<dots> = of_int (m * 2 ^ nat (e - q))" by simp
  finally have "round_half_even (?x / 2 powi q) = m * 2 ^ nat (e - q)"
    by (simp only: round_half_even_of_int)
  then have "fl ?x = of_int (m * 2 ^ nat (e - q)) * 2 powi q"
    using x0 unfolding fl_def q_def by (simp only: if_False)
  also have "\<dots> = of_int m * (2 ^ nat (e - q) * 2 powi q)" by simp
  also have "\<dots> = ?x" by (simp only: split)
  finally show ?thesis .
qed

lemma fl_int: "\<bar>m\<bar> < 2 ^ 53 \<Longrightarrow> fl (of_int m) = of_int m"
  using fl_representable [of m 0] by simp

lemma fl_tiny:
  assumes "0 < x" and "x < 2 powi (- 1075)"
  shows "fl x = 0"
proof -
  have "(2 :: real) powi (- 1075) < 2 powi (- 1022)" by (intro power_int_strict_increasing) simp_all
  with assms(2) have "x < 2 powi (- 1022)" by linarith
  then have fl2: "\<lfloor>log 2 x\<rfloor> < - 1022" using assms(1) by (intro floor_log2_less)
  have ab: "\<bar>x\<bar> = x" using assms(1) by simp
  have q: "ulp_exp x = - 1074" unfolding ulp_exp_def ab using fl2 by linarith
  have h: "(2 :: real) powi (- 1075) = (1 / 2) * 2 powi (- 1074)"
    using power_int_add [of "2 :: real" "- 1" "- 1074"] by (simp add: power_int_minus)
  have p: "(0 :: real) < 2 powi (- 1074)" by simp
  from assms(2) have "x < (1 / 2) * 2 powi (- 1074)" by (simp only: h)
  with p have lt: "x / 2 powi (- 1074) < 1 / 2" by (simp only: pos_divide_less_eq)
  have ge: "0 \<le> x / 2 powi (- 1074)" using assms(1) p by (simp only: zero_le_divide_iff) simp
  have "round_half_even (of_int 0 + x / 2 powi (- 1074)) = 0"
    by (rule round_half_even_below [OF ge lt])
  then have "round_half_even (x / 2 powi (- 1074)) = 0" by simp
  then show ?thesis using assms(1) unfolding fl_def q by simp
qed

lemma fl_near_one:
  assumes "0 \<le> d" and "d < 2 powi (- 53)"
  shows "fl (1 + d) = 1"
proof -
  have "(2 :: real) powi (- 53) < 2 powi 0" by (intro power_int_strict_increasing) simp_all
  with assms(2) have d1: "d < 1" by simp
  have "\<lfloor>log 2 (1 + d)\<rfloor> = 0" using assms(1) d1 by (intro floor_log2_eq) simp_all
  moreover have "\<bar>1 + d\<bar> = 1 + d" using assms(1) by simp
  ultimately have q: "ulp_exp (1 + d) = - 52" unfolding ulp_exp_def by simp
  have inv: "(2 :: real) powi (- 52) * 2 ^ 52 = 1"
    using power_int_add [of "2 :: real" "- 52" 52] by simp
  have p: "(0 :: real) < 2 powi (- 52)" by simp
  have e: "(1 + d) / 2 powi (- 52) = of_int (2 ^ 52) + d * 2 ^ 52"
  proof -
    have "(of_int (2 ^ 52) + d * 2 ^ 52) * 2 powi (- 52) = (1 + d) * (2 powi (- 52) * 2 ^ 52)"
      by (simp add: algebra_simps)
    also have "\<dots> = 1 + d" by (simp only: inv mult_1_right)
    finally show ?thesis using p by (simp only: nonzero_divide_eq_eq [OF less_imp_neq [OF p, symmetric]])
  qed
  have h: "(2 :: real) powi (- 53) * 2 ^ 52 = 1 / 2"
    using power_int_add [of "2 :: real" "- 53" 52] by (simp add: power_int_minus)
  have "d * 2 ^ 52 < 2 powi (- 53) * 2 ^ 52" using assms(2) by simp
  then have lt: "d * 2 ^ 52 < 1 / 2" by (simp only: h)
  have ge: "0 \<le> d * 2 ^ 52" using assms(1) by simp
  have "round_half_even ((1 + d) / 2 powi (- 52)) = 2 ^ 52"
    unfolding e by (rule round_half_even_below [OF ge lt])
  moreover have "1 + d \<noteq> 0" using assms(1) by simp
  ultimately have "fl (1 + d) = of_int (2 ^ 52) * 2 powi (- 52)"
    unfolding fl_def q by (simp only: if_False)
  also have "\<dots> = 1" using inv by (simp add: mult.commute)
  finally show ?thesis .
qed

lemma fl_numeral [simp]: "(numeral n :: int) < 2 ^ 53 \<Longrightarrow> fl (numeral n) = numeral n"
  using fl_int [of "numeral n"] by simp

lemma fl_one [simp]: "fl 1 = 1"
  using fl_int [of 1] by simp

lemma fl_quarters [simp]: "fl (1 / 4) = 1 / 4" "fl (3 / 4) = 3 / 4"
  using fl_representable [of 1 "- 2"] fl_representable [of 3 "- 2"]
  by (simp_all add: power_int_minus)

lemma sqrt_squares [simp]: "sqrt 9765625 = 3125" "sqrt 39062500 = 6250"
  by (rule real_sqrt_unique; simp)+

lemma fl_tie_2_53: "fl (of_int (2 ^ 53 + 1)) = 2 ^ 53"
proof -
  let ?x = "of_int (2 ^ 53 + 1) :: real"
  have "\<lfloor>log 2 ?x\<rfloor> = 53" by (intro floor_log2_eq) simp_all
  moreover have "\<bar>?x\<bar> = ?x" by simp
  ultimately have q: "ulp_exp ?x = 1" unfolding ulp_exp_def by simp
  have e: "?x / 2 powi 1 = of_int (2 ^ 52) + 1 / 2" by simp
  have f: "\<lfloor>of_int (2 ^ 52) + (1 / 2 :: real)\<rfloor> = 2 ^ 52" by linarith
  have "round_half_even (?x / 2 powi 1) = 2 ^ 52"
    unfolding e round_half_even_def Let_def f by simp
  moreover have "?x \<noteq> 0" by simp
  ultimately have "fl ?x = of_int (2 ^ 52) * 2 powi 1" unfolding fl_def q by (simp only: if_False)
  then show ?thesis by simp
qed

section \<open>The movement interpolator\<close>

lemma and_then_Inr: "and_then r f = Inr y \<longleftrightarrow> (\<exists>x. r = Inr x \<and> f x = Inr y)"
  by (cases r) (simp_all add: and_then_def)

lemma go_to_loop_done:
  "py_real a_x = py_real b_x \<Longrightarrow> py_real a_y = py_real b_y \<Longrightarrow>
     go_to_loop ar pid b_x b_y d_x d_y angle a_x a_y t2 ts = ([], Returned)"
  by (cases ts) simp_all

lemma go_to_loop_raise:
  "py_real a_x \<noteq> py_real b_x \<or> py_real a_y \<noteq> py_real b_y \<Longrightarrow>
   go_to_tick ar b_x b_y d_x d_y a_x a_y t2 t = Inl e \<Longrightarrow>
     go_to_loop ar pid b_x b_y d_x d_y angle a_x a_y t2 (t # ts) = ([], Raised e)"
  by simp

lemma go_to_loop_call:
  "py_real a_x \<noteq> py_real b_x \<or> py_real a_y \<noteq> py_real b_y \<Longrightarrow>
   go_to_tick ar b_x b_y d_x d_y a_x a_y t2 t = Inr (x', y', m) \<Longrightarrow>
     go_to_loop ar pid b_x b_y d_x d_y angle a_x a_y t2 (t # ts)
     = (\<lparr>c_pid = pid, c_x = x', c_y = y', c_angle = angle, c_moving = m\<rparr>
          # fst (go_to_loop ar pid b_x b_y d_x d_y angle x' y' t ts),
        snd (go_to_loop ar pid b_x b_y d_x d_y angle x' y' t ts))"
  by (simp add: split_def Let_def)

lemma go_to_tick_result:
  assumes "go_to_tick ar b_x b_y d_x d_y a_x a_y t1 t2 = Inr (x', y', m)"
  shows "\<exists>dt dist r_x r_y s_x s_y ss rdist.
      a_sub ar t2 t1 = Inr dt \<and> a_mul ar MOVE_SPEED dt = Inr dist
    \<and> a_sub ar b_x a_x = Inr r_x \<and> a_sub ar b_y a_y = Inr r_y
    \<and> a_pow2 ar r_x = Inr s_x \<and> a_pow2 ar r_y = Inr s_y
    \<and> a_add ar s_x s_y = Inr ss \<and> a_sqrt ar ss = Inr rdist
    \<and> (py_real dist < py_real rdist \<longrightarrow> m)
    \<and> (py_real rdist < py_real dist \<longrightarrow> \<not> m)
    \<and> (m \<longrightarrow> (\<exists>m_x m_y. a_mul ar d_x dist = Inr m_x \<and> a_add ar a_x m_x = Inr x'
                    \<and> a_mul ar d_y dist = Inr m_y \<and> a_add ar a_y m_y = Inr y'))
    \<and> (\<not> m \<longrightarrow> x' = b_x \<and> y' = b_y)"
  using assms unfolding go_to_tick_def and_then_Inr
  by (auto split: if_splits simp: and_then_Inr)

lemma go_to_tick_snap:
  "go_to_tick ar b_x b_y d_x d_y a_x a_y t1 t2 = Inr (x', y', False) \<Longrightarrow> x' = b_x \<and> y' = b_y"
  by (drule go_to_tick_result) blast

lemma loop_length:
  "length (fst (go_to_loop ar pid b_x b_y d_x d_y angle a_x a_y t2 ts)) \<le> length ts"
proof (induction ts arbitrary: a_x a_y t2)
  case Nil
  show ?case by simp
next
  case (Cons t ts)
  show ?case
  proof (cases "py_real a_x = py_real b_x \<and> py_real a_y = py_real b_y")
    case True
    then show ?thesis by (simp add: go_to_loop_done)
  next
    case False
    then have off: "py_real a_x \<noteq> py_real b_x \<or> py_real a_y \<noteq> py_real b_y" by blast
    show ?thesis
    proof (cases "go_to_tick ar b_x b_y d_x d_y a_x a_y t2 t")
      case (Inl e)
      show ?thesis unfolding go_to_loop_raise [OF off Inl] by simp
    next
      case (Inr r)
      obtain x' y' m where r: "r = (x', y', m)" by (cases r)
      note tick = Inr [unfolded r]
      note eq = go_to_loop_call [OF off tick]
      note IH = Cons.IH [of x' y' t]
      show ?thesis unfolding eq using IH by simp
    qed
  qed
qed

lemma loop_suspended:
  "snd (go_to_loop ar pid b_x b_y d_x d_y angle a_x a_y t2 ts) = Suspended \<Longrightarrow> length (fst (go_to_loop ar pid b_x b_y d_x d_y angle a_x a_y t2 ts)) = length ts"
proof (induction ts arbitrary: a_x a_y t2)
  case Nil
  show ?case by simp
next
  case (Cons t ts)
  show ?case
  proof (cases "py_real a_x = py_real b_x \<and> py_real a_y = py_real b_y")
    case True
    then show ?thesis using Cons.prems by (simp add: go_to_loop_done)
  next
    case False
    then have off: "py_real a_x \<noteq> py_real b_x \<or> py_real a_y \<noteq> py_real b_y" by blast
    show ?thesis
    proof (cases "go_to_tick ar b_x b_y d_x d_y a_x a_y t2 t")
      case (Inl e)
      show ?thesis unfolding go_to_loop_raise [OF off Inl] using Cons.prems unfolding go_to_loop_raise [OF off Inl] by simp
    next
      case (Inr r)
      obtain x' y' m where r: "r = (x', y', m)" by (cases r)
      note tick = Inr [unfolded r]
      note eq = go_to_loop_call [OF off tick]
      note IH = Cons.IH [of x' y' t]
      show ?thesis using Cons.prems IH unfolding eq by simp
    qed
  qed
qed

lemma loop_labels:
  "\<forall>c \<in> set (fst (go_to_loop ar pid b_x b_y d_x d_y angle a_x a_y t2 ts)). c_pid c = pid \<and> c_angle c = angle"
proof (induction ts arbitrary: a_x a_y t2)
  case Nil
  show ?case by simp
next
  case (Cons t ts)
  show ?case
  proof (cases "py_real a_x = py_real b_x \<and> py_real a_y = py_real b_y")
    case True
    then show ?thesis by (simp add: go_to_loop_done)
  next
    case False
    then have off: "py_real a_x \<noteq> py_real b_x \<or> py_real a_y \<noteq> py_real b_y" by blast
    show ?thesis
    proof (cases "go_to_tick ar b_x b_y d_x d_y a_x a_y t2 t")
      case (Inl e)
      show ?thesis unfolding go_to_loop_raise [OF off Inl] by simp
    next
      case (Inr r)
      obtain x' y' m where r: "r = (x', y', m)" by (cases r)
      note tick = Inr [unfolded r]
      note eq = go_to_loop_call [OF off tick]
      note IH = Cons.IH [of x' y' t]
      show ?thesis unfolding eq using IH by simp
    qed
  qed
qed

lemma loop_snap_at_target:
  "\<forall>c \<in> set (fst (go_to_loop ar pid b_x b_y d_x d_y angle a_x a_y t2 ts)). \<not> c_moving c \<longrightarrow> c_x c = b_x \<and> c_y c = b_y"
proof (induction ts arbitrary: a_x a_y t2)
  case Nil
  show ?case by simp
next
  case (Cons t ts)
  show ?case
  proof (cases "py_real a_x = py_real b_x \<and> py_real a_y = py_real b_y")
    case True
    then show ?thesis by (simp add: go_to_loop_done)
  next
    case False
    then have off: "py_real a_x \<noteq> py_real b_x \<or> py_real a_y \<noteq> py_real b_y" by blast
    show ?thesis
    proof (cases "go_to_tick ar b_x b_y d_x d_y a_x a_y t2 t")
      case (Inl e)
      show ?thesis unfolding go_to_loop_raise [OF off Inl] by simp
    next
      case (Inr r)
      obtain x' y' m where r: "r = (x', y', m)" by (cases r)
      note tick = Inr [unfolded r]
      note eq = go_to_loop_call [OF off tick]
      note IH = Cons.IH [of x' y' t]
      have "\<not> m \<longrightarrow> x' = b_x \<and> y' = b_y" using go_to_tick_snap [of ar b_x b_y d_x d_y a_x a_y t2 t x' y'] tick by auto
      then show ?thesis unfolding eq using IH by simp
    qed
  qed
qed

lemma loop_before_last:
  "\<forall>c \<in> set (butlast (fst (go_to_loop ar pid b_x b_y d_x d_y angle a_x a_y t2 ts))). c_moving c \<and> (py_real (c_x c) \<noteq> py_real b_x \<or> py_real (c_y c) \<noteq> py_real b_y)"
proof (induction ts arbitrary: a_x a_y t2)
  case Nil
  show ?case by simp
next
  case (Cons t ts)
  show ?case
  proof (cases "py_real a_x = py_real b_x \<and> py_real a_y = py_real b_y")
    case True
    then show ?thesis by (simp add: go_to_loop_done)
  next
    case False
    then have off: "py_real a_x \<noteq> py_real b_x \<or> py_real a_y \<noteq> py_real b_y" by blast
    show ?thesis
    proof (cases "go_to_tick ar b_x b_y d_x d_y a_x a_y t2 t")
      case (Inl e)
      show ?thesis unfolding go_to_loop_raise [OF off Inl] by simp
    next
      case (Inr r)
      obtain x' y' m where r: "r = (x', y', m)" by (cases r)
      note tick = Inr [unfolded r]
      note eq = go_to_loop_call [OF off tick]
      note IH = Cons.IH [of x' y' t]
      let ?rest = "fst (go_to_loop ar pid b_x b_y d_x d_y angle x' y' t ts)"
      show ?thesis
      proof (cases "?rest = []")
        case True
        then show ?thesis unfolding eq by simp
      next
        case False
        have offn: "py_real x' \<noteq> py_real b_x \<or> py_real y' \<noteq> py_real b_y"
        proof (rule ccontr)
          assume "\<not> ?thesis"
          then have "?rest = []" by (simp add: go_to_loop_done)
          with False show False by contradiction
        qed
        have "m"
        proof (rule ccontr)
          assume "\<not> m"
          with tick have "x' = b_x \<and> y' = b_y" using go_to_tick_snap [of ar b_x b_y d_x d_y a_x a_y t2 t x' y'] by simp
          with offn show False by simp
        qed
        with offn IH False show ?thesis unfolding eq by simp
      qed
    qed
  qed
qed

lemma loop_returned:
  "snd (go_to_loop ar pid b_x b_y d_x d_y angle a_x a_y t2 ts) = Returned \<Longrightarrow> (if fst (go_to_loop ar pid b_x b_y d_x d_y angle a_x a_y t2 ts) = [] then py_real a_x = py_real b_x \<and> py_real a_y = py_real b_y else py_real (c_x (last (fst (go_to_loop ar pid b_x b_y d_x d_y angle a_x a_y t2 ts)))) = py_real b_x \<and> py_real (c_y (last (fst (go_to_loop ar pid b_x b_y d_x d_y angle a_x a_y t2 ts)))) = py_real b_y)"
proof (induction ts arbitrary: a_x a_y t2)
  case Nil
  show ?case using Nil.prems by (simp split: if_splits)
next
  case (Cons t ts)
  show ?case
  proof (cases "py_real a_x = py_real b_x \<and> py_real a_y = py_real b_y")
    case True
    then show ?thesis by (simp add: go_to_loop_done)
  next
    case False
    then have off: "py_real a_x \<noteq> py_real b_x \<or> py_real a_y \<noteq> py_real b_y" by blast
    show ?thesis
    proof (cases "go_to_tick ar b_x b_y d_x d_y a_x a_y t2 t")
      case (Inl e)
      show ?thesis unfolding go_to_loop_raise [OF off Inl] using Cons.prems unfolding go_to_loop_raise [OF off Inl] by simp
    next
      case (Inr r)
      obtain x' y' m where r: "r = (x', y', m)" by (cases r)
      note tick = Inr [unfolded r]
      note eq = go_to_loop_call [OF off tick]
      note IH = Cons.IH [of x' y' t]
      from Cons.prems have "snd (go_to_loop ar pid b_x b_y d_x d_y angle x' y' t ts) = Returned"
        unfolding eq by simp
      from IH [OF this] show ?thesis unfolding eq by (simp split: if_splits)
    qed
  qed
qed

lemma loop_snap_returns:
  "fst (go_to_loop ar pid b_x b_y d_x d_y angle a_x a_y t2 ts) \<noteq> [] \<Longrightarrow> \<not> c_moving (last (fst (go_to_loop ar pid b_x b_y d_x d_y angle a_x a_y t2 ts))) \<Longrightarrow> snd (go_to_loop ar pid b_x b_y d_x d_y angle a_x a_y t2 ts) = Returned"
proof (induction ts arbitrary: a_x a_y t2)
  case Nil
  show ?case using Nil.prems by (simp split: if_splits)
next
  case (Cons t ts)
  show ?case
  proof (cases "py_real a_x = py_real b_x \<and> py_real a_y = py_real b_y")
    case True
    then show ?thesis using Cons.prems by (simp add: go_to_loop_done)
  next
    case False
    then have off: "py_real a_x \<noteq> py_real b_x \<or> py_real a_y \<noteq> py_real b_y" by blast
    show ?thesis
    proof (cases "go_to_tick ar b_x b_y d_x d_y a_x a_y t2 t")
      case (Inl e)
      show ?thesis unfolding go_to_loop_raise [OF off Inl] using Cons.prems unfolding go_to_loop_raise [OF off Inl] by simp
    next
      case (Inr r)
      obtain x' y' m where r: "r = (x', y', m)" by (cases r)
      note tick = Inr [unfolded r]
      note eq = go_to_loop_call [OF off tick]
      note IH = Cons.IH [of x' y' t]
      let ?rest = "fst (go_to_loop ar pid b_x b_y d_x d_y angle x' y' t ts)"
      show ?thesis
      proof (cases "?rest = []")
        case True
        with Cons.prems(2) have "\<not> m" unfolding eq by simp
        with tick have "x' = b_x \<and> y' = b_y" using go_to_tick_snap [of ar b_x b_y d_x d_y a_x a_y t2 t x' y'] by simp
        then show ?thesis unfolding eq by (simp add: go_to_loop_done)
      next
        case False
        with Cons.prems(2) have "\<not> c_moving (last ?rest)" unfolding eq by simp
        from IH [OF False this] show ?thesis unfolding eq by simp
      qed
    qed
  qed
qed

lemma go_to_tick_call:
  "go_to_tick ar b_x b_y d_x d_y a_x a_y t1 t2 = Inr (x', y', m) \<Longrightarrow>
     tick_call ar b_x b_y d_x d_y a_x a_y t1 t2
       \<lparr>c_pid = pid, c_x = x', c_y = y', c_angle = angle, c_moving = m\<rparr>"
  unfolding tick_call_def by (drule go_to_tick_result) simp

lemma loop_ticks:
  "\<forall>i < length (fst (go_to_loop ar pid b_x b_y d_x d_y angle a_x a_y t2 ts)).
      tick_call ar b_x b_y d_x d_y
        ((a_x # map c_x (fst (go_to_loop ar pid b_x b_y d_x d_y angle a_x a_y t2 ts))) ! i) ((a_y # map c_y (fst (go_to_loop ar pid b_x b_y d_x d_y angle a_x a_y t2 ts))) ! i)
        ((t2 # ts) ! i) ((t2 # ts) ! Suc i) (fst (go_to_loop ar pid b_x b_y d_x d_y angle a_x a_y t2 ts) ! i)"
proof (induction ts arbitrary: a_x a_y t2)
  case Nil
  show ?case by simp
next
  case (Cons t ts)
  show ?case
  proof (cases "py_real a_x = py_real b_x \<and> py_real a_y = py_real b_y")
    case True
    then show ?thesis by (simp add: go_to_loop_done)
  next
    case False
    then have off: "py_real a_x \<noteq> py_real b_x \<or> py_real a_y \<noteq> py_real b_y" by blast
    show ?thesis
    proof (cases "go_to_tick ar b_x b_y d_x d_y a_x a_y t2 t")
      case (Inl e)
      show ?thesis unfolding go_to_loop_raise [OF off Inl] by simp
    next
      case (Inr r)
      obtain x' y' m where r: "r = (x', y', m)" by (cases r)
      note tick = Inr [unfolded r]
      note eq = go_to_loop_call [OF off tick]
      note IH = Cons.IH [of x' y' t, rule_format]
      let ?c = "\<lparr>c_pid = pid, c_x = x', c_y = y', c_angle = angle, c_moving = m\<rparr>"
      let ?rest = "fst (go_to_loop ar pid b_x b_y d_x d_y angle x' y' t ts)"
      have first: "tick_call ar b_x b_y d_x d_y a_x a_y t2 t ?c"
        by (rule go_to_tick_call [OF tick])
      show ?thesis unfolding eq fst_conv
      proof (intro allI impI)
        fix i assume i: "i < length (?c # ?rest)"
        show "tick_call ar b_x b_y d_x d_y
                ((a_x # map c_x (?c # ?rest)) ! i) ((a_y # map c_y (?c # ?rest)) ! i)
                ((t2 # t # ts) ! i) ((t2 # t # ts) ! Suc i) ((?c # ?rest) ! i)"
        proof (cases i)
          case 0
          with first show ?thesis by simp
        next
          case (Suc j)
          with i have "j < length ?rest" by simp
          from IH [OF this] show ?thesis by (simp add: Suc)
        qed
      qed
    qed
  qed
qed

lemma go_to_start:
  assumes me: "map_of (players s) pid = Some me"
    and ne: "py_real (p_x me) \<noteq> py_real b_x \<or> py_real (p_y me) \<noteq> py_real b_y"
  shows "(\<exists>e. go_to ar s pid b_x b_y t0 ts = ([], Raised e))
       \<or> (\<exists>v_x v_y d_x d_y angle.
             a_sub ar b_x (p_x me) = Inr v_x \<and> a_sub ar b_y (p_y me) = Inr v_y
           \<and> norm_xy ar v_x v_y = Inr (d_x, d_y) \<and> a_atan2 ar d_y d_x = Inr angle
           \<and> go_to ar s pid b_x b_y t0 ts
               = go_to_loop ar pid b_x b_y d_x d_y angle (p_x me) (p_y me) t0 ts)"
proof -
  let ?dir = "and_then (a_sub ar b_x (p_x me)) (\<lambda>v_x.
              and_then (a_sub ar b_y (p_y me)) (\<lambda>v_y.
              and_then (norm_xy ar v_x v_y) (\<lambda>(d_x, d_y).
              and_then (a_atan2 ar d_y d_x) (\<lambda>angle.
              Inr (go_to_loop ar pid b_x b_y d_x d_y angle (p_x me) (p_y me) t0 ts)))))"
  from ne have n: "\<not> (py_real (p_x me) = py_real b_x \<and> py_real (p_y me) = py_real b_y)" by blast
  have g: "go_to ar s pid b_x b_y t0 ts = (case ?dir of Inl e \<Rightarrow> ([], Raised e) | Inr r \<Rightarrow> r)"
    unfolding go_to_def me option.case Let_def using n by (simp only: if_False)
  show ?thesis
  proof (cases ?dir)
    case (Inl e)
    then show ?thesis unfolding g by simp
  next
    case (Inr r)
    then obtain v_x v_y d_x d_y angle where
      "a_sub ar b_x (p_x me) = Inr v_x" "a_sub ar b_y (p_y me) = Inr v_y"
      "norm_xy ar v_x v_y = Inr (d_x, d_y)" "a_atan2 ar d_y d_x = Inr angle"
      "r = go_to_loop ar pid b_x b_y d_x d_y angle (p_x me) (p_y me) t0 ts"
      unfolding and_then_Inr by (auto simp: and_then_Inr)
    then show ?thesis unfolding g Inr by auto
  qed
qed

text \<open>
  C1 (as amended). For a controlled player that is not at the target, in whatever
  arithmetic the numbers are computed and whatever the clock reads: \<^verbatim>\<open>go_to\<close> makes at
  most one call of \<^verbatim>\<open>update_player\<close> per tick, and one for every tick when it is still
  suspended; every call but the last has \<open>moving = True\<close> and a position other than the
  target; a call with \<open>moving = False\<close> passes the target itself, and the routine returns
  after it; when the routine has returned it has made a call and the last position
  passed equals the target. All calls carry the player's id and the angle of the initial
  direction \<open>(d_x, d_y) = norm(b_x - a_x, b_y - a_y)\<close>. For tick \<open>i\<close>, with the previous
  position \<open>(q_x, q_y)\<close> (the start position for the first tick), the step is
  \<open>dist = MOVE_SPEED * (t\<^sub>i\<^sub>+\<^sub>1 - t\<^sub>i)\<close> and the remaining distance is
  \<open>rdist = sqrt((b_x - q_x)**2 + (b_y - q_y)**2)\<close>; the call has \<open>moving = True\<close> when
  \<open>dist < rdist\<close> and \<open>moving = False\<close> when \<open>rdist < dist\<close>, and a call with
  \<open>moving = True\<close> passes \<open>q_x + d_x * dist\<close> and \<open>q_y + d_y * dist\<close>.
\<close>

theorem go_to_trace:
  assumes me: "map_of (players s) pid = Some me"
    and ne: "py_real (p_x me) \<noteq> py_real b_x \<or> py_real (p_y me) \<noteq> py_real b_y"
    and run: "go_to ar s pid b_x b_y t0 ts = (calls, st)"
  shows "length calls \<le> length ts
     \<and> (st = Suspended \<longrightarrow> length calls = length ts)
     \<and> (\<forall>c \<in> set (butlast calls).
           c_moving c \<and> (py_real (c_x c) \<noteq> py_real b_x \<or> py_real (c_y c) \<noteq> py_real b_y))
     \<and> (\<forall>c \<in> set calls. \<not> c_moving c \<longrightarrow> c_x c = b_x \<and> c_y c = b_y)
     \<and> (st = Returned \<longrightarrow>
           calls \<noteq> [] \<and> py_real (c_x (last calls)) = py_real b_x
           \<and> py_real (c_y (last calls)) = py_real b_y)
     \<and> (calls \<noteq> [] \<and> \<not> c_moving (last calls) \<longrightarrow> st = Returned)
     \<and> (calls \<noteq> [] \<longrightarrow>
           (\<exists>v_x v_y d_x d_y angle.
               a_sub ar b_x (p_x me) = Inr v_x \<and> a_sub ar b_y (p_y me) = Inr v_y
             \<and> norm_xy ar v_x v_y = Inr (d_x, d_y) \<and> a_atan2 ar d_y d_x = Inr angle
             \<and> (\<forall>c \<in> set calls. c_pid c = pid \<and> c_angle c = angle)
             \<and> (\<forall>i < length calls.
                   (\<exists>dt dist r_x r_y s_x s_y ss rdist.
                      a_sub ar ((t0 # ts) ! Suc i) ((t0 # ts) ! i) = Inr dt
                    \<and> a_mul ar MOVE_SPEED dt = Inr dist
                    \<and> a_sub ar b_x ((p_x me # map c_x calls) ! i) = Inr r_x
                    \<and> a_sub ar b_y ((p_y me # map c_y calls) ! i) = Inr r_y
                    \<and> a_pow2 ar r_x = Inr s_x \<and> a_pow2 ar r_y = Inr s_y
                    \<and> a_add ar s_x s_y = Inr ss \<and> a_sqrt ar ss = Inr rdist
                    \<and> (py_real dist < py_real rdist \<longrightarrow> c_moving (calls ! i))
                    \<and> (py_real rdist < py_real dist \<longrightarrow> \<not> c_moving (calls ! i))
                    \<and> (c_moving (calls ! i) \<longrightarrow>
                          (\<exists>m_x m_y.
                              a_mul ar d_x dist = Inr m_x
                            \<and> a_add ar ((p_x me # map c_x calls) ! i) m_x = Inr (c_x (calls ! i))
                            \<and> a_mul ar d_y dist = Inr m_y
                            \<and> a_add ar ((p_y me # map c_y calls) ! i) m_y = Inr (c_y (calls ! i))))
                    \<and> (\<not> c_moving (calls ! i) \<longrightarrow> c_x (calls ! i) = b_x \<and> c_y (calls ! i) = b_y)))))"
proof -
  from go_to_start [OF me ne, of ar t0 ts]
  consider (raised) e where "go_to ar s pid b_x b_y t0 ts = ([], Raised e)"
    | (loop) v_x v_y d_x d_y angle where
        "a_sub ar b_x (p_x me) = Inr v_x" "a_sub ar b_y (p_y me) = Inr v_y"
        "norm_xy ar v_x v_y = Inr (d_x, d_y)" "a_atan2 ar d_y d_x = Inr angle"
        "go_to ar s pid b_x b_y t0 ts
           = go_to_loop ar pid b_x b_y d_x d_y angle (p_x me) (p_y me) t0 ts"
    by blast
  then show ?thesis
  proof cases
    case raised
    with run have "calls = []" and "st = Raised e" by simp_all
    then show ?thesis by simp
  next
    case loop
    let ?G = "go_to_loop ar pid b_x b_y d_x d_y angle (p_x me) (p_y me) t0 ts"
    from run loop(5) have c: "calls = fst ?G" and s: "st = snd ?G" by simp_all
    have 1: "length calls \<le> length ts" unfolding c by (rule loop_length)
    have 2: "st = Suspended \<longrightarrow> length calls = length ts" unfolding c s
      using loop_suspended by blast
    have 3: "\<forall>c \<in> set (butlast calls).
           c_moving c \<and> (py_real (c_x c) \<noteq> py_real b_x \<or> py_real (c_y c) \<noteq> py_real b_y)"
      unfolding c by (rule loop_before_last)
    have 4: "\<forall>c \<in> set calls. \<not> c_moving c \<longrightarrow> c_x c = b_x \<and> c_y c = b_y"
      unfolding c by (rule loop_snap_at_target)
    have 5: "st = Returned \<longrightarrow>
           calls \<noteq> [] \<and> py_real (c_x (last calls)) = py_real b_x
           \<and> py_real (c_y (last calls)) = py_real b_y"
    proof
      assume "st = Returned"
      then have "snd ?G = Returned" by (simp add: s)
      from loop_returned [OF this] ne show "calls \<noteq> [] \<and> py_real (c_x (last calls)) = py_real b_x
           \<and> py_real (c_y (last calls)) = py_real b_y"
        unfolding c by (auto split: if_splits)
    qed
    have 6: "calls \<noteq> [] \<and> \<not> c_moving (last calls) \<longrightarrow> st = Returned"
      unfolding c s using loop_snap_returns by blast
    have 7: "\<forall>c \<in> set calls. c_pid c = pid \<and> c_angle c = angle"
      unfolding c by (rule loop_labels)
    have 8: "\<forall>i < length calls.
                   (\<exists>dt dist r_x r_y s_x s_y ss rdist.
                      a_sub ar ((t0 # ts) ! Suc i) ((t0 # ts) ! i) = Inr dt
                    \<and> a_mul ar MOVE_SPEED dt = Inr dist
                    \<and> a_sub ar b_x ((p_x me # map c_x calls) ! i) = Inr r_x
                    \<and> a_sub ar b_y ((p_y me # map c_y calls) ! i) = Inr r_y
                    \<and> a_pow2 ar r_x = Inr s_x \<and> a_pow2 ar r_y = Inr s_y
                    \<and> a_add ar s_x s_y = Inr ss \<and> a_sqrt ar ss = Inr rdist
                    \<and> (py_real dist < py_real rdist \<longrightarrow> c_moving (calls ! i))
                    \<and> (py_real rdist < py_real dist \<longrightarrow> \<not> c_moving (calls ! i))
                    \<and> (c_moving (calls ! i) \<longrightarrow>
                          (\<exists>m_x m_y.
                              a_mul ar d_x dist = Inr m_x
                            \<and> a_add ar ((p_x me # map c_x calls) ! i) m_x = Inr (c_x (calls ! i))
                            \<and> a_mul ar d_y dist = Inr m_y
                            \<and> a_add ar ((p_y me # map c_y calls) ! i) m_y = Inr (c_y (calls ! i))))
                    \<and> (\<not> c_moving (calls ! i) \<longrightarrow> c_x (calls ! i) = b_x \<and> c_y (calls ! i) = b_y))"
      using loop_ticks [of ar pid b_x b_y d_x d_y angle "p_x me" "p_y me" t0 ts]
      unfolding c tick_call_def by blast
    from loop(1-4) 7 8 have 9: "\<exists>v_x v_y d_x d_y angle.
               a_sub ar b_x (p_x me) = Inr v_x \<and> a_sub ar b_y (p_y me) = Inr v_y
             \<and> norm_xy ar v_x v_y = Inr (d_x, d_y) \<and> a_atan2 ar d_y d_x = Inr angle
             \<and> (\<forall>c \<in> set calls. c_pid c = pid \<and> c_angle c = angle)
             \<and> (\<forall>i < length calls.
                   (\<exists>dt dist r_x r_y s_x s_y ss rdist.
                      a_sub ar ((t0 # ts) ! Suc i) ((t0 # ts) ! i) = Inr dt
                    \<and> a_mul ar MOVE_SPEED dt = Inr dist
                    \<and> a_sub ar b_x ((p_x me # map c_x calls) ! i) = Inr r_x
                    \<and> a_sub ar b_y ((p_y me # map c_y calls) ! i) = Inr r_y
                    \<and> a_pow2 ar r_x = Inr s_x \<and> a_pow2 ar r_y = Inr s_y
                    \<and> a_add ar s_x s_y = Inr ss \<and> a_sqrt ar ss = Inr rdist
                    \<and> (py_real dist < py_real rdist \<longrightarrow> c_moving (calls ! i))
                    \<and> (py_real rdist < py_real dist \<longrightarrow> \<not> c_moving (calls ! i))
                    \<and> (c_moving (calls ! i) \<longrightarrow>
                          (\<exists>m_x m_y.
                              a_mul ar d_x dist = Inr m_x
                            \<and> a_add ar ((p_x me # map c_x calls) ! i) m_x = Inr (c_x (calls ! i))
                            \<and> a_mul ar d_y dist = Inr m_y
                            \<and> a_add ar ((p_y me # map c_y calls) ! i) m_y = Inr (c_y (calls ! i))))
                    \<and> (\<not> c_moving (calls ! i) \<longrightarrow> c_x (calls ! i) = b_x \<and> c_y (calls ! i) = b_y)))"
      by blast
    from 1 2 3 4 5 6 9 show ?thesis by blast
  qed
qed

subsection \<open>Runs on Python floats\<close>

lemmas py_eval = python_arith_def go_to_def go_to_tick_def norm_xy_def and_then_def float_op_def
  rounded_def fits_def py_sqrt_def py_atan2_def atan2_def MOVE_SPEED_def Let_def
  add_player_def init_state_def new_player_def update_player_def

lemma run_paused:
  "go_to python_arith (add_player 1 ''hi'' init_state) 1 (PInt 1) (PInt 0) (PFloat 5) [PFloat 5]
   = ([\<lparr>c_pid = 1, c_x = PFloat 0, c_y = PFloat 0, c_angle = PFloat 0, c_moving = True\<rparr>],
      Suspended)"
  by (simp add: py_eval)

lemma run_exact:
  "go_to python_arith (add_player 1 ''hi'' init_state) 1 (PInt 3125) (PInt 0) (PFloat 0)
     [PFloat (1 / 4)]
   = ([\<lparr>c_pid = 1, c_x = PFloat 3125, c_y = PFloat 0, c_angle = PFloat 0, c_moving = True\<rparr>],
      Returned)"
  by (simp add: py_eval)

lemma run_witness:
  "go_to python_arith (add_player 1 ''hi'' init_state) 1 (PInt 6250) (PInt 0) (PFloat 0)
     [PFloat (1 / 4), PFloat 1]
   = ([\<lparr>c_pid = 1, c_x = PFloat 3125, c_y = PFloat 0, c_angle = PFloat 0, c_moving = True\<rparr>,
       \<lparr>c_pid = 1, c_x = PInt 6250, c_y = PInt 0, c_angle = PFloat 0, c_moving = False\<rparr>],
      Returned)"
  by (simp add: py_eval)

lemma run_tiny_step:
  "go_to python_arith (update_player 1 (PInt 1) (PInt 0) 0 False (add_player 1 ''hi'' init_state))
     1 (PInt 2) (PInt 0) (PFloat 0) [PFloat (2 powi (- 80))]
   = ([\<lparr>c_pid = 1, c_x = PFloat 1, c_y = PFloat 0, c_angle = PFloat 0, c_moving = True\<rparr>],
      Suspended)"
proof -
  define t :: real where "t = 2 powi (- 80)"
  have t0: "0 < t" by (simp add: t_def)
  have t1: "12500 * t < 2 powi (- 53)"
  proof -
    have "12500 * t < 2 ^ 14 * t" using t0 by simp
    also have "\<dots> = 2 powi (14 + (- 80))" unfolding t_def by (subst power_int_add) simp_all
    also have "\<dots> < 2 powi (- 53)" by (intro power_int_strict_increasing) simp_all
    finally show ?thesis .
  qed
  have "(2 :: real) powi (- 53) < 2 powi 0" by (intro power_int_strict_increasing) simp_all
  with t1 have t2: "12500 * t < 1" by simp
  have f1: "fl t = t" using fl_representable [of 1 "- 80"] by (simp add: t_def)
  have f2: "fl (12500 * t) = 12500 * t" using fl_representable [of 12500 "- 80"] by (simp add: t_def)
  have f3: "fl (1 + 12500 * t) = 1" using t0 t1 by (intro fl_near_one) simp_all
  have b1: "\<bar>t\<bar> < 2 ^ 1024" using t0 t2 by simp
  have b2: "\<bar>12500 * t\<bar> < 2 ^ 1024" using t0 t2 by simp
  have b3: "t \<noteq> 0" using t0 by simp
  have "go_to python_arith (update_player 1 (PInt 1) (PInt 0) 0 False (add_player 1 ''hi'' init_state))
     1 (PInt 2) (PInt 0) (PFloat 0) [PFloat t]
   = ([\<lparr>c_pid = 1, c_x = PFloat 1, c_y = PFloat 0, c_angle = PFloat 0, c_moving = True\<rparr>],
      Suspended)"
    using t0 t2 b1 b2 b3 by (simp add: py_eval f1 f2 f3)
  then show ?thesis unfolding t_def .
qed

lemma run_underflow:
  "go_to python_arith (add_player 1 ''hi'' init_state) 1 (PFloat (2 powi (- 600))) (PInt 0) t0 ts
   = ([], Raised ZeroDivisionError)"
proof -
  define u :: real where "u = 2 powi (- 600)"
  have u0: "0 < u" by (simp add: u_def)
  have "(2 :: real) powi (- 600) < 2 powi 0" by (intro power_int_strict_increasing) simp_all
  then have u1: "u < 1" by (simp add: u_def)
  have "u * u = 2 powi (- 600 + - 600)" unfolding u_def by (subst power_int_add) simp_all
  also have "\<dots> < 2 powi (- 1075)" by (intro power_int_strict_increasing) simp_all
  finally have sq: "u * u < 2 powi (- 1075)" .
  have f1: "fl u = u" using fl_representable [of 1 "- 600"] by (simp add: u_def)
  have f2: "fl (u * u) = 0" using u0 sq by (intro fl_tiny) simp_all
  have b1: "\<bar>u\<bar> < 2 ^ 1024" using u0 u1 by simp
  have b3: "u \<noteq> 0" using u0 by simp
  have "go_to python_arith (add_player 1 ''hi'' init_state) 1 (PFloat u) (PInt 0) t0 ts
   = ([], Raised ZeroDivisionError)"
    using b1 b3 by (simp add: py_eval f1 f2)
  then show ?thesis unfolding u_def .
qed

lemma run_rounded_difference:
  "go_to python_arith
     (update_player 1 (PInt (2 ^ 53 + 1)) (PInt 0) 0 False (add_player 1 ''hi'' init_state))
     1 (PFloat (2 ^ 53)) (PInt 0) t0 ts
   = ([], Raised ZeroDivisionError)"
  using fl_tie_2_53 by (simp add: py_eval)

theorem go_to_trace_witness:
  "map_of (players (add_player 1 ''hi'' init_state)) 1 = Some (new_player 1 ''hi'')
   \<and> py_real (p_x (new_player 1 ''hi'')) \<noteq> py_real (PInt 6250)
   \<and> go_to python_arith (add_player 1 ''hi'' init_state) 1 (PInt 6250) (PInt 0) (PFloat 0)
         [PFloat (1 / 4), PFloat 1]
       = ([\<lparr>c_pid = 1, c_x = PFloat 3125, c_y = PFloat 0, c_angle = PFloat 0, c_moving = True\<rparr>,
           \<lparr>c_pid = 1, c_x = PInt 6250, c_y = PInt 0, c_angle = PFloat 0, c_moving = False\<rparr>],
          Returned)
   \<and> py_real (c_x (last
         [\<lparr>c_pid = 1, c_x = PFloat 3125, c_y = PFloat 0, c_angle = PFloat 0, c_moving = True\<rparr>,
          \<lparr>c_pid = 1, c_x = PInt 6250, c_y = PInt 0, c_angle = PFloat 0, c_moving = False\<rparr>]))
       = py_real (PInt 6250)"
proof -
  have me: "map_of (players (add_player 1 ''hi'' init_state)) 1 = Some (new_player 1 ''hi'')"
    by (simp add: add_player_def init_state_def)
  have ne: "py_real (p_x (new_player 1 ''hi'')) \<noteq> py_real (PInt 6250)
            \<or> py_real (p_y (new_player 1 ''hi'')) \<noteq> py_real (PInt 0)"
    by (simp add: new_player_def)
  have ne1: "py_real (p_x (new_player 1 ''hi'')) \<noteq> py_real (PInt 6250)"
    by (simp add: new_player_def)
  from go_to_trace [OF me ne run_witness] me ne1 run_witness show ?thesis by blast
qed

text \<open>
  The claim as the specification states it fails in three ways, each shown on the
  arithmetic of Python floats. While the simulation is paused every reading of
  \<^verbatim>\<open>time()\<close> is the pause instant, the step is 0 and the call passes the position
  unchanged: from (0, 0) towards (1, 0) the remaining distance stays 1. With a positive
  elapsed time of \<open>2\<^sup>-\<^sup>8\<^sup>0\<close> s the step is below the rounding unit of the position 1 and the
  call passes (1, 0) again: from (1, 0) towards (2, 0) the remaining distance stays 1. And
  where the step equals the remaining distance, from (0, 0) towards (3125, 0) with one
  tick of 1/4 s, the only call passes the target with \<open>moving = True\<close> and the routine
  returns.
\<close>

theorem go_to_distance_counterexample:
  "time 6 (pause 5 (add_player 1 ''hi'' init_state)) = 5
   \<and> time 7 (pause 5 (add_player 1 ''hi'' init_state)) = 5
   \<and> go_to python_arith (pause 5 (add_player 1 ''hi'' init_state)) 1 (PInt 1) (PInt 0)
        (PFloat (time 6 (pause 5 (add_player 1 ''hi'' init_state))))
        [PFloat (time 7 (pause 5 (add_player 1 ''hi'' init_state)))]
       = ([\<lparr>c_pid = 1, c_x = PFloat 0, c_y = PFloat 0, c_angle = PFloat 0, c_moving = True\<rparr>],
          Suspended)
   \<and> \<not> sorted_wrt (>)
          (sqrt ((1 - 0)\<^sup>2 + (0 - 0)\<^sup>2)
           # map (dist_to (PInt 1) (PInt 0))
               [\<lparr>c_pid = 1, c_x = PFloat 0, c_y = PFloat 0, c_angle = PFloat 0, c_moving = True\<rparr>])
   \<and> (0 :: real) < 2 powi (- 80)
   \<and> go_to python_arith
        (update_player 1 (PInt 1) (PInt 0) 0 False (add_player 1 ''hi'' init_state))
        1 (PInt 2) (PInt 0) (PFloat 0) [PFloat (2 powi (- 80))]
       = ([\<lparr>c_pid = 1, c_x = PFloat 1, c_y = PFloat 0, c_angle = PFloat 0, c_moving = True\<rparr>],
          Suspended)
   \<and> \<not> sorted_wrt (>)
          (sqrt ((2 - 1)\<^sup>2 + (0 - 0)\<^sup>2)
           # map (dist_to (PInt 2) (PInt 0))
               [\<lparr>c_pid = 1, c_x = PFloat 1, c_y = PFloat 0, c_angle = PFloat 0, c_moving = True\<rparr>])
   \<and> go_to python_arith (add_player 1 ''hi'' init_state) 1 (PInt 3125) (PInt 0) (PFloat 0)
        [PFloat (1 / 4)]
       = ([\<lparr>c_pid = 1, c_x = PFloat 3125, c_y = PFloat 0, c_angle = PFloat 0, c_moving = True\<rparr>],
          Returned)
   \<and> c_moving (last
        [\<lparr>c_pid = 1, c_x = PFloat 3125, c_y = PFloat 0, c_angle = PFloat 0, c_moving = True\<rparr>])"
proof -
  have p: "go_to python_arith (pause 5 (add_player 1 ''hi'' init_state)) 1 (PInt 1) (PInt 0)
        (PFloat (time 6 (pause 5 (add_player 1 ''hi'' init_state))))
        [PFloat (time 7 (pause 5 (add_player 1 ''hi'' init_state)))]
       = ([\<lparr>c_pid = 1, c_x = PFloat 0, c_y = PFloat 0, c_angle = PFloat 0, c_moving = True\<rparr>],
          Suspended)"
    by (simp add: py_eval pause_def time_def)
  have t: "time 6 (pause 5 (add_player 1 ''hi'' init_state)) = 5
           \<and> time 7 (pause 5 (add_player 1 ''hi'' init_state)) = 5"
    by (simp add: pause_def time_def add_player_def init_state_def)
  have d1: "\<not> sorted_wrt (>)
          (sqrt ((1 - 0)\<^sup>2 + (0 - 0)\<^sup>2)
           # map (dist_to (PInt 1) (PInt 0))
               [\<lparr>c_pid = 1, c_x = PFloat 0, c_y = PFloat 0, c_angle = PFloat 0, c_moving = True\<rparr>])"
    by (simp add: dist_to_def)
  have d2: "\<not> sorted_wrt (>)
          (sqrt ((2 - 1)\<^sup>2 + (0 - 0)\<^sup>2)
           # map (dist_to (PInt 2) (PInt 0))
               [\<lparr>c_pid = 1, c_x = PFloat 1, c_y = PFloat 0, c_angle = PFloat 0, c_moving = True\<rparr>])"
    by (simp add: dist_to_def)
  have pos: "(0 :: real) < 2 powi (- 80)" by simp
  from t p d1 pos run_tiny_step d2 run_exact show ?thesis by simp
qed

lemma go_to_at_target:
  "map_of (players s) pid = Some me \<Longrightarrow> py_real (p_x me) = py_real b_x \<Longrightarrow>
   py_real (p_y me) = py_real b_y \<Longrightarrow> go_to ar s pid b_x b_y t0 ts = ([], Returned)"
  by (simp add: go_to_def)

text \<open>
  C6. When the controlled player is at the target, \<^verbatim>\<open>go_to\<close> returns at once, with no call
  of \<^verbatim>\<open>update_player\<close> and no tick, in any arithmetic and for any readings (shown for a
  player at (0, 0); \<open>go_to_at_target\<close> is the general statement). But the test of the
  positions does not keep \<^verbatim>\<open>norm\<close> from dividing by zero. From (0, 0) towards
  \<open>(2\<^sup>-\<^sup>6\<^sup>0\<^sup>0, 0)\<close> the positions differ, the square of the difference underflows to 0.0,
  the length is 0.0 and \<^verbatim>\<open>norm\<close> raises \<^verbatim>\<open>ZeroDivisionError\<close>. From \<open>(2\<^sup>5\<^sup>3 + 1, 0)\<close>, an int,
  towards the float \<open>(2\<^sup>5\<^sup>3, 0)\<close> the positions differ, the difference is rounded to 0.0,
  \<^verbatim>\<open>norm\<close> is called on the zero vector and raises.
\<close>

theorem go_to_divides_by_zero:
  "go_to ar (add_player 1 ''hi'' init_state) 1 (PInt 0) (PInt 0) t0 ts = ([], Returned)
   \<and> py_real (PInt 0) \<noteq> py_real (PFloat (2 powi (- 600)))
   \<and> go_to python_arith (add_player 1 ''hi'' init_state) 1 (PFloat (2 powi (- 600))) (PInt 0)
        t0 ts
       = ([], Raised ZeroDivisionError)
   \<and> py_real (PInt (2 ^ 53 + 1)) \<noteq> py_real (PFloat (2 ^ 53))
   \<and> py_sub (PFloat (2 ^ 53)) (PInt (2 ^ 53 + 1)) = Inr (PFloat 0)
   \<and> go_to python_arith
        (update_player 1 (PInt (2 ^ 53 + 1)) (PInt 0) 0 False (add_player 1 ''hi'' init_state))
        1 (PFloat (2 ^ 53)) (PInt 0) t0 ts
       = ([], Raised ZeroDivisionError)"
proof -
  have a: "go_to ar (add_player 1 ''hi'' init_state) 1 (PInt 0) (PInt 0) t0 ts = ([], Returned)"
    by (rule go_to_at_target [where me = "new_player 1 ''hi''"])
       (simp_all add: add_player_def init_state_def new_player_def)
  have b: "py_real (PInt 0) \<noteq> py_real (PFloat (2 powi (- 600)))" by simp
  have c: "py_real (PInt (2 ^ 53 + 1)) \<noteq> py_real (PFloat (2 ^ 53))" by simp
  have d: "py_sub (PFloat (2 ^ 53)) (PInt (2 ^ 53 + 1)) = Inr (PFloat 0)"
    using fl_tie_2_53 by (simp add: float_op_def rounded_def fits_def)
  from a b c d run_underflow [of t0 ts] run_rounded_difference [of t0 ts] show ?thesis by blast
qed

end
